theory Spec2Isabelle
  imports Complex_Main
begin

section \<open>Python values used by the eye tracking service\<close>

text \<open>
  The service of \<^verbatim>\<open>python_services/eye_tracking_service.py\<close> keeps one
  \<^verbatim>\<open>ClientSession\<close> object per session id in the dictionary
  \<^verbatim>\<open>EyeTrackingService.sessions\<close>. Timestamps are the floats returned by
  \<^verbatim>\<open>time.time()\<close>. Every call of \<^verbatim>\<open>time.time()\<close> is an explicit argument of
  the function that makes the call. Durations are sums and differences of clock readings
  and are kept exact; the arithmetic that decides a focus state (the gaze zones, the
  weights and the weighted average of the smoother) and the percentage of the metrics are
  computed in float64, as the code computes them.
\<close>

datatype py_error = TypeError | ZeroDivisionError

text \<open>
  \<^verbatim>\<open>if x:\<close> on an optional float: \<^verbatim>\<open>None\<close> and \<^verbatim>\<open>0.0\<close> are false.
\<close>

definition truthy_time :: "real option \<Rightarrow> bool" where
  "truthy_time x = (case x of None \<Rightarrow> False | Some t \<Rightarrow> t \<noteq> 0)"

text \<open>
  \<^verbatim>\<open>if user_id and module_id\<close>: \<^verbatim>\<open>None\<close> and the empty string are false.
\<close>

definition truthy_str :: "string option \<Rightarrow> bool" where
  "truthy_str x = (case x of None \<Rightarrow> False | Some s \<Rightarrow> s \<noteq> [])"

text \<open>
  \<^verbatim>\<open>round(x, 1)\<close> on exact values: the nearest multiple of one tenth, a tie going
  to the even one.
\<close>

definition py_round1 :: "real \<Rightarrow> real" where
  "py_round1 x =
     (let y = x * 10; f = \<lfloor>y\<rfloor>; d = y - of_int f
      in (if d < 1 / 2 then of_int f
          else if 1 / 2 < d then of_int (f + 1)
          else if even f then of_int f
          else of_int (f + 1)) / 10)"

subsection \<open>float64 arithmetic\<close>

text \<open>
  A Python float is modelled by the real number it denotes. \<open>fl x\<close> is the float nearest
  to \<open>x\<close>: \<open>x\<close> rounded to a mantissa of 53 bits, a tie going to the even mantissa. A
  float literal \<^verbatim>\<open>0.6\<close> is \<open>fl 0.6\<close>, and an operation on floats is \<open>fl\<close> of the exact
  result. The exponent range of float64 (overflow, subnormal numbers) is not modelled:
  the weights, sums and averages of the smoother lie between 0 and 16.
\<close>

definition round_half_even :: "real \<Rightarrow> int" where
  "round_half_even y =
     (let f = \<lfloor>y\<rfloor>; d = y - of_int f
      in if d < 1 / 2 then f
         else if 1 / 2 < d then f + 1
         else if even f then f
         else f + 1)"

definition fl :: "real \<Rightarrow> real" where
  "fl x =
     (if x = 0 then 0
      else (let ulp = 2 powr (of_int \<lfloor>log 2 \<bar>x\<bar>\<rfloor> - 52)
            in of_int (round_half_even (x / ulp)) * ulp))"

subsection \<open>The numpy functions of the smoother\<close>

text \<open>
  \<^verbatim>\<open>np.linspace(start, stop, num)\<close> as numpy computes it: the step is
  \<^verbatim>\<open>(stop - start) / (num - 1)\<close>, sample \<open>i\<close> is \<^verbatim>\<open>i * step + start\<close> (with the
  division done first should the step round to zero), and the last of two or more
  samples is set to \<^verbatim>\<open>stop\<close>. A single sample is \<^verbatim>\<open>0 * (stop - start) + start\<close>.
\<close>

definition linspace :: "real \<Rightarrow> real \<Rightarrow> nat \<Rightarrow> real list" where
  "linspace start stop num =
     (let divisor = num - 1;
          delta = fl (stop - start);
          y = map real [0..<num];
          y = (if divisor > 0 then
                 (let step = fl (delta / real divisor)
                  in if step = 0 then map (\<lambda>v. fl (fl (v / real divisor) * delta)) y
                     else map (\<lambda>v. fl (v * step)) y)
               else map (\<lambda>v. fl (v * delta)) y);
          y = map (\<lambda>v. fl (v + start)) y
      in if num > 1 then butlast y @ [stop] else y)"

text \<open>
  The sum of a float array as numpy's \<^verbatim>\<open>add.reduce\<close> computes it. Fewer than 8
  numbers are added from left to right. Up to 128 numbers are added in eight running
  sums over blocks of 8, the eight sums are added in pairs, and the numbers left over are
  added one by one. A longer array is split in two halves (the first a multiple of 8),
  each summed this way.
\<close>

function add_blocks :: "real list \<Rightarrow> real list \<Rightarrow> real list \<times> real list" where
  "add_blocks r a =
     (if length a < 8 then (r, a)
      else add_blocks (map2 (\<lambda>x y. fl (x + y)) r (take 8 a)) (drop 8 a))"
  by pat_completeness auto
termination
  by (relation "measure (\<lambda>(r, a). length a)") auto

function pairwise_sum :: "real list \<Rightarrow> real" where
  "pairwise_sum a =
     (if length a < 8 then foldl (\<lambda>res x. fl (res + x)) 0 a
      else if length a \<le> 128 then
        (let (r, rest) = add_blocks (take 8 a) (drop 8 a);
             res = fl (fl (fl (r ! 0 + r ! 1) + fl (r ! 2 + r ! 3)) +
                       fl (fl (r ! 4 + r ! 5) + fl (r ! 6 + r ! 7)))
         in foldl (\<lambda>res x. fl (res + x)) res rest)
      else
        (let n2 = length a div 2 - (length a div 2) mod 8
         in fl (pairwise_sum (take n2 a) + pairwise_sum (drop n2 a))))"
  by pat_completeness auto
termination
  by (relation "measure length") auto

text \<open>The reduction starts from 0 and adds the pairwise sum of the array.\<close>

definition np_sum :: "real list \<Rightarrow> real" where
  "np_sum a = fl (0 + pairwise_sum a)"

text \<open>
  \<^verbatim>\<open>np.average(a, weights=w)\<close> on a list of booleans (read as 0.0 and 1.0):
  \<^verbatim>\<open>np.multiply(a, w).sum() / w.sum()\<close>. numpy raises \<^verbatim>\<open>TypeError\<close> when the
  shapes differ and \<^verbatim>\<open>ZeroDivisionError\<close> when the weights sum to zero.
\<close>

definition np_average :: "bool list \<Rightarrow> real list \<Rightarrow> py_error + real" where
  "np_average a w =
     (if length a \<noteq> length w then Inl TypeError
      else (let scl = np_sum w
            in if scl = 0 then Inl ZeroDivisionError
               else Inr (fl (np_sum (map2 (\<lambda>b x. fl ((if b then 1 else 0) * x)) a w) / scl))))"

section \<open>ClientSession\<close>

text \<open>
  The fields of \<^verbatim>\<open>ClientSession\<close>, but \<^verbatim>\<open>latest_annotated_frame\<close> (the image
  overlay, which no decision reads). \<^verbatim>\<open>tracking_state\<close> is one of the strings
  \<^verbatim>\<open>"idle"\<close>, \<^verbatim>\<open>"countdown"\<close>, \<^verbatim>\<open>"tracking"\<close>, \<^verbatim>\<open>"stopped"\<close>.
\<close>

record ClientSession =
  user_id :: "string option"
  module_id :: "string option"
  section_id :: "string option"
  is_tracking :: bool
  is_focused :: bool
  session_start_time :: "real option"
  accumulated_focused_time :: real
  accumulated_unfocused_time :: real
  last_frame_time :: real
  focus_history :: "bool list"
  focus_history_size :: nat
  current_focus_session_start :: "real option"
  current_unfocus_session_start :: "real option"
  frames_processed :: nat
  countdown_active :: bool
  countdown_start_time :: "real option"
  countdown_duration :: real
  tracking_state :: string

text \<open>\<^verbatim>\<open>ClientSession.__init__\<close>; \<open>now\<close> is its \<^verbatim>\<open>time.time()\<close>.\<close>

definition ClientSession_init ::
  "string option \<Rightarrow> string option \<Rightarrow> string option \<Rightarrow> real \<Rightarrow> ClientSession" where
  "ClientSession_init uid mid sec now =
     \<lparr> user_id = uid, module_id = mid, section_id = sec,
       is_tracking = False, is_focused = False, session_start_time = None,
       accumulated_focused_time = 0, accumulated_unfocused_time = 0,
       last_frame_time = now, focus_history = [], focus_history_size = 15,
       current_focus_session_start = None, current_unfocus_session_start = None,
       frames_processed = 0, countdown_active = False, countdown_start_time = None,
       countdown_duration = 2, tracking_state = ''idle'' \<rparr>"

section \<open>Gaze analysis\<close>

text \<open>
  What \<^verbatim>\<open>self.gaze\<close> shows after \<^verbatim>\<open>refresh(frame)\<close>. The two \<open>has_\<close> fields are
  the \<^verbatim>\<open>hasattr\<close> tests of \<^verbatim>\<open>analyze_gaze\<close>. A ratio is a float: the field holds a
  real, and the code sees the float nearest to it.
\<close>

record gaze_signal =
  has_pupils_located :: bool
  pupils_located :: bool
  horizontal_ratio :: "real option"
  vertical_ratio :: "real option"
  has_is_blinking :: bool
  is_blinking :: bool

text \<open>
  A decoded frame is represented by what the gaze tracker does with it: there is no
  tracker (\<^verbatim>\<open>self.gaze\<close> is false), a call on it raises, or it yields a signal.
\<close>

datatype frame = NoTracker | TrackerRaises | Signal gaze_signal

text \<open>
  \<^verbatim>\<open>analyze_gaze(frame, session)\<close>; \<open>rnd\<close> is the value of the one
  \<^verbatim>\<open>np.random.random()\<close> that a call may draw, a float like the ratios. The
  subtraction and the constants of the comparisons are float64.
\<close>

definition analyze_gaze :: "frame \<Rightarrow> ClientSession \<Rightarrow> real \<Rightarrow> bool" where
  "analyze_gaze fr session rnd =
     (case fr of
        NoTracker \<Rightarrow> fl rnd > fl 0.3
      | TrackerRaises \<Rightarrow> fl rnd > fl 0.4
      | Signal g \<Rightarrow>
          if has_pupils_located g \<and> pupils_located g then
            if has_is_blinking g \<and> is_blinking g then False
            else
              (case (horizontal_ratio g, vertical_ratio g) of
                 (Some h_ratio, Some v_ratio) \<Rightarrow>
                   (let h_distance = \<bar>fl (fl h_ratio - 0.5)\<bar>;
                        v_distance = \<bar>fl (fl v_ratio - 0.5)\<bar>
                    in if h_distance < fl 0.2 \<and> v_distance < fl 0.2 then True
                       else if h_distance < fl 0.3 \<and> v_distance < fl 0.3 then fl rnd > fl 0.3
                       else False)
               | _ \<Rightarrow> False)
          else False)"

section \<open>Smoothing and time accounting\<close>

text \<open>
  \<^verbatim>\<open>update_focus_state(session, is_focused_now)\<close>; \<open>current_time\<close> is its
  \<^verbatim>\<open>time.time()\<close>. The result is the session as the call leaves it and the exception
  it raised, if any (the history is already appended when \<^verbatim>\<open>np.average\<close> runs).
\<close>

definition update_focus_state ::
  "ClientSession \<Rightarrow> bool \<Rightarrow> real \<Rightarrow> ClientSession \<times> py_error option" where
  "update_focus_state session is_focused_now current_time =
     (let h1 = focus_history session @ [is_focused_now];
          h2 = (if length h1 > focus_history_size session then tl h1 else h1);
          s1 = session\<lparr>focus_history := h2\<rparr>;
          weights = linspace 0.5 1.0 (length h2)
      in case np_average h2 weights of
           Inl e \<Rightarrow> (s1, Some e)
         | Inr weighted_focus \<Rightarrow>
             (let smoothed_focus = (weighted_focus > fl 0.6)
              in if smoothed_focus \<noteq> is_focused s1 then
                   (let s2 =
                      (if is_focused s1 then
                         (let s' =
                            (if truthy_time (current_focus_session_start s1) then
                               s1\<lparr>accumulated_focused_time :=
                                     accumulated_focused_time s1 +
                                     (current_time - the (current_focus_session_start s1)),
                                   current_focus_session_start := None\<rparr>
                             else s1)
                          in s'\<lparr>current_unfocus_session_start := Some current_time\<rparr>)
                       else
                         (let s' =
                            (if truthy_time (current_unfocus_session_start s1) then
                               s1\<lparr>accumulated_unfocused_time :=
                                     accumulated_unfocused_time s1 +
                                     (current_time - the (current_unfocus_session_start s1)),
                                   current_unfocus_session_start := None\<rparr>
                             else s1)
                          in s'\<lparr>current_focus_session_start := Some current_time\<rparr>))
                    in (s2\<lparr>is_focused := smoothed_focus\<rparr>, None))
                 else (s1, None)))"

subsection \<open>Metrics\<close>

text \<open>
  The first half of \<^verbatim>\<open>get_session_metrics\<close>: the effective focused and unfocused
  seconds, an open interval counted up to \<open>current_time\<close>.
\<close>

definition effective_times :: "ClientSession \<Rightarrow> real \<Rightarrow> real \<times> real" where
  "effective_times session current_time =
     (let focused = accumulated_focused_time session;
          unfocused = accumulated_unfocused_time session;
          focused = (if truthy_time (current_focus_session_start session)
                     then focused + (current_time - the (current_focus_session_start session))
                     else focused);
          unfocused = (if truthy_time (current_unfocus_session_start session)
                       then unfocused + (current_time - the (current_unfocus_session_start session))
                       else unfocused)
      in (focused, unfocused))"

record metrics =
  focused_time :: real
  unfocused_time :: real
  total_time :: real
  focus_percentage :: real
  metrics_frames_processed :: nat
  current_state :: string

definition get_session_metrics :: "ClientSession \<Rightarrow> real \<Rightarrow> metrics" where
  "get_session_metrics session current_time =
     (let (focused, unfocused) = effective_times session current_time;
          total = focused + unfocused;
          percentage = (if total > 0 then fl (fl (focused / total) * 100) else 0)
      in \<lparr> focused_time = py_round1 focused,
           unfocused_time = py_round1 unfocused,
           total_time = py_round1 total,
           focus_percentage = py_round1 percentage,
           metrics_frames_processed = frames_processed session,
           current_state = (if is_focused session then ''focused'' else ''unfocused'') \<rparr>)"

section \<open>The service\<close>

text \<open>\<^verbatim>\<open>EyeTrackingService.sessions\<close>: the sessions by session id.\<close>

type_synonym sessions = "string \<rightharpoonup> ClientSession"

text \<open>
  \<^verbatim>\<open>get_or_create_session\<close>: the dictionary after the call and the session returned
  (\<^verbatim>\<open>None\<close> when the id is unknown and an identifier is missing). \<open>now\<close> is the
  \<^verbatim>\<open>time.time()\<close> of the constructor.
\<close>

definition get_or_create_session ::
  "sessions \<Rightarrow> string \<Rightarrow> string option \<Rightarrow> string option \<Rightarrow> string option \<Rightarrow> real
   \<Rightarrow> sessions \<times> ClientSession option" where
  "get_or_create_session sessions session_id uid mid sec now =
     (if sessions session_id = None then
        (if truthy_str uid \<and> truthy_str mid then
           (let sessions' = sessions(session_id \<mapsto> ClientSession_init uid mid sec now)
            in (sessions', sessions' session_id))
         else (sessions, None))
      else (sessions, sessions session_id))"

text \<open>
  \<^verbatim>\<open>start_session\<close>; \<open>t_init\<close> is the clock of the constructor (read only when the
  session is created) and \<open>now\<close> the one stored as \<^verbatim>\<open>countdown_start_time\<close>.
\<close>

definition start_session ::
  "sessions \<Rightarrow> string \<Rightarrow> string option \<Rightarrow> string option \<Rightarrow> string option \<Rightarrow> real \<Rightarrow> real
   \<Rightarrow> sessions \<times> bool" where
  "start_session sessions session_id uid mid sec t_init now =
     (case get_or_create_session sessions session_id uid mid sec t_init of
        (sessions', Some session) \<Rightarrow>
          (sessions'(session_id \<mapsto>
             session\<lparr>countdown_active := True,
                     countdown_start_time := Some now,
                     tracking_state := ''countdown'',
                     accumulated_focused_time := 0,
                     accumulated_unfocused_time := 0,
                     focus_history := []\<rparr>), True)
      | (sessions', None) \<Rightarrow> (sessions', False))"

text \<open>\<^verbatim>\<open>stop_session\<close>: \<^verbatim>\<open>None\<close> is the answer for an unknown id.\<close>

definition stop_session :: "sessions \<Rightarrow> string \<Rightarrow> real \<Rightarrow> sessions \<times> metrics option" where
  "stop_session sessions session_id now =
     (case sessions session_id of
        Some session \<Rightarrow>
          (let session' = session\<lparr>is_tracking := False,
                                   countdown_active := False,
                                   tracking_state := ''stopped''\<rparr>
           in (sessions(session_id \<mapsto> session'), Some (get_session_metrics session' now)))
      | None \<Rightarrow> (sessions, None))"

subsection \<open>Processing a frame\<close>

text \<open>
  The clock readings of one \<^verbatim>\<open>process_frame\<close> call, in the order the call makes
  them: \<^verbatim>\<open>last_frame_time\<close>, the countdown test, \<^verbatim>\<open>session_start_time\<close>,
  \<^verbatim>\<open>update_focus_state\<close>, the remaining countdown of the answer, and
  \<^verbatim>\<open>get_session_metrics\<close>.
\<close>

record frame_clock =
  clk_last_frame :: real
  clk_countdown :: real
  clk_session_start :: real
  clk_update :: real
  clk_remaining :: real
  clk_metrics :: real

record frame_result =
  result_is_focused :: bool
  result_tracking_state :: string
  result_countdown_active :: bool
  countdown_remaining :: real
  result_metrics :: metrics

text \<open>
  An answer of \<^verbatim>\<open>process_frame\<close>: the dictionary with \<^verbatim>\<open>'success': False\<close> and an
  error text, the dictionary with \<^verbatim>\<open>'success': True\<close>, or an exception leaving the call.
\<close>

datatype frame_response = Failure string | Success frame_result | Raised py_error

text \<open>
  The countdown block of \<^verbatim>\<open>process_frame\<close>. Subtracting an absent
  \<^verbatim>\<open>countdown_start_time\<close> raises \<^verbatim>\<open>TypeError\<close>.
\<close>

definition handle_countdown :: "ClientSession \<Rightarrow> frame_clock \<Rightarrow> ClientSession \<times> py_error option" where
  "handle_countdown session clk =
     (if countdown_active session then
        (case countdown_start_time session of
           None \<Rightarrow> (session, Some TypeError)
         | Some c \<Rightarrow>
             (let elapsed = clk_countdown clk - c
              in if elapsed \<ge> countdown_duration session then
                   (session\<lparr>countdown_active := False,
                            is_tracking := True,
                            tracking_state := ''tracking'',
                            session_start_time := Some (clk_session_start clk)\<rparr>, None)
                 else (session, None)))
      else (session, None))"

text \<open>
  \<^verbatim>\<open>process_frame\<close> from the point where the session is found and the frame decoded.
  The annotated image of the answer is left out.
\<close>

definition process_frame_session ::
  "ClientSession \<Rightarrow> frame \<Rightarrow> real \<Rightarrow> frame_clock \<Rightarrow> ClientSession \<times> frame_response" where
  "process_frame_session session fr rnd clk =
     (let s1 = session\<lparr>last_frame_time := clk_last_frame clk,
                       frames_processed := frames_processed session + 1\<rparr>
      in case handle_countdown s1 clk of
           (s2, Some e) \<Rightarrow> (s2, Raised e)
         | (s2, None) \<Rightarrow>
             (let (is_focused_now, s3, err) =
                    (if is_tracking s2 then
                       (let f = analyze_gaze fr s2 rnd;
                            (s, e) = update_focus_state s2 f (clk_update clk)
                        in (f, s, e))
                     else (False, s2, None))
              in case err of
                   Some e \<Rightarrow> (s3, Raised e)
                 | None \<Rightarrow>
                     (s3, Success
                        \<lparr> result_is_focused = is_focused_now,
                          result_tracking_state = tracking_state s3,
                          result_countdown_active = countdown_active s3,
                          countdown_remaining =
                            (if truthy_time (countdown_start_time s3)
                             then max 0 (countdown_duration s3 -
                                         (clk_remaining clk - the (countdown_start_time s3)))
                             else 0),
                          result_metrics = get_session_metrics s3 (clk_metrics clk) \<rparr>)))"

text \<open>
  \<^verbatim>\<open>process_frame\<close>; \<open>frame_data\<close> is the result of \<^verbatim>\<open>decode_frame\<close>,
  \<^verbatim>\<open>None\<close> when the payload does not decode.
\<close>

definition process_frame ::
  "sessions \<Rightarrow> string \<Rightarrow> frame option \<Rightarrow> real \<Rightarrow> frame_clock \<Rightarrow> sessions \<times> frame_response" where
  "process_frame sessions session_id frame_data rnd clk =
     (case sessions session_id of
        None \<Rightarrow> (sessions, Failure ''Session not found'')
      | Some session \<Rightarrow>
          (case frame_data of
             None \<Rightarrow> (sessions, Failure ''Failed to decode frame'')
           | Some fr \<Rightarrow>
               (let (session', response) = process_frame_session session fr rnd clk
                in (sessions(session_id \<mapsto> session'), response))))"

subsection \<open>Status and cleanup\<close>

text \<open>The \<^verbatim>\<open>/api/status\<close> route: it reads the session and changes nothing.\<close>

record status =
  status_tracking_state :: string
  status_is_focused :: bool
  status_countdown_active :: bool
  status_metrics :: metrics

definition get_status :: "sessions \<Rightarrow> string \<Rightarrow> real \<Rightarrow> status option" where
  "get_status sessions session_id now =
     (case sessions session_id of
        None \<Rightarrow> None
      | Some session \<Rightarrow>
          Some \<lparr> status_tracking_state = tracking_state session,
                 status_is_focused = is_focused session,
                 status_countdown_active = countdown_active session,
                 status_metrics = get_session_metrics session now \<rparr>)"

definition session_timeout :: real where
  "session_timeout = 300"

definition cleanup_inactive_sessions :: "sessions \<Rightarrow> real \<Rightarrow> sessions" where
  "cleanup_inactive_sessions sessions current_time =
     (\<lambda>sid. case sessions sid of
               None \<Rightarrow> None
             | Some session \<Rightarrow>
                 if current_time - last_frame_time session > session_timeout then None
                 else Some session)"

subsection \<open>Runs of the service\<close>

text \<open>
  One call of the service with its arguments and clock readings, and the dictionary after
  a list of calls made one after the other.
\<close>

datatype event =
  StartSession string "string option" "string option" "string option" real real
| ProcessFrame string "frame option" real frame_clock
| StopSession string real
| GetStatus string real
| CleanupInactive real

fun step :: "sessions \<Rightarrow> event \<Rightarrow> sessions" where
  "step m (StartSession sid uid mid sec t_init now) = fst (start_session m sid uid mid sec t_init now)"
| "step m (ProcessFrame sid frame_data rnd clk) = fst (process_frame m sid frame_data rnd clk)"
| "step m (StopSession sid now) = fst (stop_session m sid now)"
| "step m (GetStatus sid now) = m"
| "step m (CleanupInactive now) = cleanup_inactive_sessions m now"

definition run :: "sessions \<Rightarrow> event list \<Rightarrow> sessions" where
  "run m evs = foldl step m evs"

text \<open>The clock readings of a call, in the order the call makes them.\<close>

fun clock_readings :: "event \<Rightarrow> real list" where
  "clock_readings (StartSession sid uid mid sec t_init now) = [t_init, now]"
| "clock_readings (ProcessFrame sid frame_data rnd clk) =
     [clk_last_frame clk, clk_countdown clk, clk_session_start clk, clk_update clk,
      clk_remaining clk, clk_metrics clk]"
| "clock_readings (StopSession sid now) = [now]"
| "clock_readings (GetStatus sid now) = [now]"
| "clock_readings (CleanupInactive now) = [now]"

section \<open>Notions used in the statements and proofs\<close>

text \<open>The history that \<^verbatim>\<open>update_focus_state\<close> stores: the new entry appended, the
  oldest one removed when the list has grown past \<^verbatim>\<open>focus_history_size\<close>.\<close>

definition next_history :: "ClientSession \<Rightarrow> bool \<Rightarrow> bool list" where
  "next_history s b =
     (if length (focus_history s @ [b]) > focus_history_size s
      then tl (focus_history s @ [b]) else focus_history s @ [b])"

text \<open>The two transitions of \<^verbatim>\<open>update_focus_state\<close>: the smoothed state leaves
  focused, or leaves unfocused, at time \<open>t\<close>.\<close>

definition leave_focused :: "ClientSession \<Rightarrow> real \<Rightarrow> ClientSession" where
  "leave_focused s t =
     (if truthy_time (current_focus_session_start s)
      then s\<lparr>accumulated_focused_time :=
                accumulated_focused_time s + (t - the (current_focus_session_start s)),
              current_focus_session_start := None\<rparr>
      else s)\<lparr>current_unfocus_session_start := Some t, is_focused := False\<rparr>"

definition leave_unfocused :: "ClientSession \<Rightarrow> real \<Rightarrow> ClientSession" where
  "leave_unfocused s t =
     (if truthy_time (current_unfocus_session_start s)
      then s\<lparr>accumulated_unfocused_time :=
                accumulated_unfocused_time s + (t - the (current_unfocus_session_start s)),
              current_unfocus_session_start := None\<rparr>
      else s)\<lparr>current_focus_session_start := Some t, is_focused := True\<rparr>"

text \<open>The assignments of \<^verbatim>\<open>start_session\<close> and of \<^verbatim>\<open>stop_session\<close> to the
  session they find.\<close>

definition rearm :: "ClientSession \<Rightarrow> real \<Rightarrow> ClientSession" where
  "rearm s now =
     s\<lparr>countdown_active := True,
       countdown_start_time := Some now,
       tracking_state := ''countdown'',
       accumulated_focused_time := 0,
       accumulated_unfocused_time := 0,
       focus_history := []\<rparr>"

definition halt :: "ClientSession \<Rightarrow> ClientSession" where
  "halt s = s\<lparr>is_tracking := False, countdown_active := False, tracking_state := ''stopped''\<rparr>"

text \<open>The fields of the time accounting.\<close>

definition accounting :: "ClientSession \<Rightarrow> bool \<times> real \<times> real \<times> real option \<times> real option" where
  "accounting s =
     (is_focused s, accumulated_focused_time s, accumulated_unfocused_time s,
      current_focus_session_start s, current_unfocus_session_start s)"

text \<open>The lifecycle state of a session id: \<^verbatim>\<open>tracking_state\<close> of its session, if it
  has one.\<close>

definition lifecycle :: "sessions \<Rightarrow> string \<Rightarrow> string option" where
  "lifecycle m sid = map_option tracking_state (m sid)"

text \<open>A call of \<^verbatim>\<open>start_session\<close> for the session id.\<close>

fun starts :: "string \<Rightarrow> event \<Rightarrow> bool" where
  "starts sid (StartSession sid' uid mid sec t_init now) = (sid' = sid)"
| "starts sid e = False"




text \<open>What holds of every session the service stores: the history capacity is 15 and
  the history within it, and a running countdown has its start time and the state
  \<^verbatim>\<open>"countdown"\<close>.\<close>

definition well_formed :: "ClientSession \<Rightarrow> bool" where
  "well_formed s =
     (focus_history_size s = 15 \<and> length (focus_history s) \<le> 15 \<and>
      (countdown_active s \<longrightarrow>
         tracking_state s = ''countdown'' \<and> countdown_start_time s \<noteq> None))"

text \<open>The open intervals agree with the smoothed state: a focused session has no open
  unfocus interval, an unfocused one no open focus interval, and no interval starts at the
  time \<open>0\<close> that Python reads as false.\<close>

definition intervals_ok :: "ClientSession \<Rightarrow> bool" where
  "intervals_ok s =
     ((if is_focused s then current_unfocus_session_start s = None
       else current_focus_session_start s = None) \<and>
      current_focus_session_start s \<noteq> Some 0 \<and>
      current_unfocus_session_start s \<noteq> Some 0)"

text \<open>A session fed a list of raw focus decisions, each with the clock reading of its
  \<^verbatim>\<open>update_focus_state\<close> call; an exception ends the feeding.\<close>

fun feed :: "ClientSession \<Rightarrow> (bool \<times> real) list \<Rightarrow> ClientSession \<times> py_error option" where
  "feed s [] = (s, None)"
| "feed s ((b, t) # xs) =
     (case update_focus_state s b t of
        (s', None) \<Rightarrow> feed s' xs
      | (s', Some e) \<Rightarrow> (s', Some e))"

subsection \<open>The smoothed state as the specification words it\<close>

text \<open>
  The weight of entry \<open>i\<close> of a history of \<open>n\<close> entries, entry \<open>0\<close> the oldest: the
  weights rise linearly from 0.5 on the oldest entry to 1.0 on the newest; a single entry
  has the weight 0.5 of \<^verbatim>\<open>linspace(0.5, 1.0, 1)\<close>. The smoothed state is the weighted
  average of the history, compared strictly with 0.6. All of it is exact arithmetic.
\<close>

definition spec_weight :: "nat \<Rightarrow> nat \<Rightarrow> real" where
  "spec_weight n i =
     (if n \<le> 1 then 1 / 2 else 1 / 2 + (1 / 2) * (real i / real (n - 1)))"

definition spec_weighted_average :: "bool list \<Rightarrow> real" where
  "spec_weighted_average h =
     (\<Sum>i\<leftarrow>[0..<length h]. spec_weight (length h) i * (if h ! i then 1 else 0)) /
     (\<Sum>i\<leftarrow>[0..<length h]. spec_weight (length h) i)"

definition spec_smoothed :: "bool list \<Rightarrow> bool" where
  "spec_smoothed h = (spec_weighted_average h > 0.6)"

subsection \<open>Rounding errors\<close>

text \<open>
  The relative error of one rounding is at most 1 / 2 ^ 53. \<open>approx k x X\<close>: the
  float \<open>x\<close> was computed for the exact value \<open>X \<ge> 0\<close> with at most \<open>k\<close> roundings in a
  row, none of them after a subtraction.
\<close>

definition unit_roundoff :: real where
  "unit_roundoff = 1 / 2 ^ 53"

definition approx :: "nat \<Rightarrow> real \<Rightarrow> real \<Rightarrow> bool" where
  "approx k x X =
     (0 \<le> X \<and> (1 - unit_roundoff) ^ k * X \<le> x \<and> x \<le> (1 + unit_roundoff) ^ k * X)"

text \<open>The history capacity is 15 and the history within it.\<close>

definition bounded_history :: "ClientSession \<Rightarrow> bool" where
  "bounded_history s = (focus_history_size s = 15 \<and> length (focus_history s) \<le> 15)"

subsection \<open>Notions of the time accounting\<close>

text \<open>Every open interval of the session starts at one of the times \<open>R\<close>.\<close>

definition starts_among :: "real set \<Rightarrow> ClientSession \<Rightarrow> bool" where
  "starts_among R s =
     ((case current_focus_session_start s of None \<Rightarrow> True | Some t \<Rightarrow> t \<in> R) \<and>
      (case current_unfocus_session_start s of None \<Rightarrow> True | Some t \<Rightarrow> t \<in> R))"

text \<open>The clock reading that a call passes to \<^verbatim>\<open>update_focus_state\<close>, and the reading
  of the first call of a list after which the session of the id is focused.\<close>

fun update_clock :: "event \<Rightarrow> real option" where
  "update_clock (ProcessFrame sid frame_data rnd clk) = Some (clk_update clk)"
| "update_clock e = None"

fun became_focused_at :: "sessions \<Rightarrow> string \<Rightarrow> event list \<Rightarrow> real option" where
  "became_focused_at m sid [] = None"
| "became_focused_at m sid (e # es) =
     (if (case step m e sid of None \<Rightarrow> False | Some s \<Rightarrow> is_focused s)
      then update_clock e
      else became_focused_at (step m e) sid es)"

text \<open>The state of the accounting when the session first became focused at \<open>origin\<close>:
  never, and then nothing is counted and no interval is open; or at a time \<open>t0\<close>, and then
  the interval of the current smoothed state is open and the accumulators hold the time
  from \<open>t0\<close> to its start.\<close>

definition conserved :: "real option \<Rightarrow> ClientSession \<Rightarrow> bool" where
  "conserved origin s =
     (case origin of
        None \<Rightarrow> accounting s = (False, 0, 0, None, None)
      | Some t0 \<Rightarrow>
          (let opened = (if is_focused s then current_focus_session_start s
                         else current_unfocus_session_start s);
               other = (if is_focused s then current_unfocus_session_start s
                        else current_focus_session_start s)
           in truthy_time opened \<and> other = None \<and>
              accumulated_focused_time s + accumulated_unfocused_time s = the opened - t0))"

section \<open>Example inputs\<close>

text \<open>A frame call whose clock readings are all \<open>t\<close>.\<close>

definition clock_at :: "real \<Rightarrow> frame_clock" where
  "clock_at t =
     \<lparr> clk_last_frame = t, clk_countdown = t, clk_session_start = t, clk_update = t,
       clk_remaining = t, clk_metrics = t \<rparr>"

text \<open>A gaze at the centre of the screen, and a frame in which no pupils are found.\<close>

definition centred :: frame where
  "centred = Signal \<lparr> has_pupils_located = True, pupils_located = True,
                       horizontal_ratio = Some 0.5, vertical_ratio = Some 0.5,
                       has_is_blinking = True, is_blinking = False \<rparr>"

definition away :: frame where
  "away = Signal \<lparr> has_pupils_located = True, pupils_located = False,
                    horizontal_ratio = None, vertical_ratio = None,
                    has_is_blinking = True, is_blinking = False \<rparr>"

text \<open>Session \<^verbatim>\<open>S1\<close> of user \<^verbatim>\<open>U1\<close> and module \<^verbatim>\<open>M1\<close> is started at time 1; a
  centred frame arrives at time 3 and a frame without pupils at time 5.\<close>

definition start_S1 :: "real \<Rightarrow> event" where
  "start_S1 t = StartSession ''S1'' (Some ''U1'') (Some ''M1'') None t t"

definition focus_then_away :: "event list" where
  "focus_then_away =
     [start_S1 1,
      ProcessFrame ''S1'' (Some centred) 0.5 (clock_at 3),
      ProcessFrame ''S1'' (Some away) 0.5 (clock_at 5)]"

text \<open>The first two calls of that list: the session is focused, its focus interval open
  since time 3.\<close>

definition focused_run :: "event list" where
  "focused_run = [start_S1 1, ProcessFrame ''S1'' (Some centred) 0.5 (clock_at 3)]"


text \<open>Three unfocused raw decisions and then three focused ones, at the times 1 to 6.\<close>

definition tie_inputs :: "(bool \<times> real) list" where
  "tie_inputs = [(False, 1), (False, 2), (False, 3), (True, 4), (True, 5), (True, 6)]"

text \<open>Session \<^verbatim>\<open>S1\<close> starts tracking at time 3 on a frame without pupils.\<close>

definition tracking_unfocused :: "event list" where
  "tracking_unfocused = [start_S1 1, ProcessFrame ''S1'' (Some away) 0.5 (clock_at 3)]"

section \<open>Properties\<close>


subsection \<open>float64 rounding\<close>

lemma round_half_even_near: "\<bar>of_int (round_half_even y) - y\<bar> \<le> 1 / 2"
  unfolding round_half_even_def Let_def by (auto simp: abs_if) linarith+

lemma fl_zero [simp]: "fl 0 = 0"
  by (simp add: fl_def)

lemma fl_error:
  assumes "0 < x"
  shows "\<bar>fl x - x\<bar> \<le> unit_roundoff * x"
proof -
  define e where "e = \<lfloor>log 2 x\<rfloor>"
  define ulp :: real where "ulp = 2 powr (of_int e - 52)"
  have ulp_pos: "0 < ulp" by (simp add: ulp_def)
  have "of_int e \<le> log 2 x" by (simp add: e_def)
  then have low: "2 powr of_int e \<le> x"
    using assms by (simp add: le_log_iff)
  have fl: "fl x = of_int (round_half_even (x / ulp)) * ulp"
    using assms by (simp add: fl_def ulp_def e_def Let_def)
  have "fl x - x = (of_int (round_half_even (x / ulp)) - x / ulp) * ulp"
    using ulp_pos by (simp add: fl left_diff_distrib)
  then have "\<bar>fl x - x\<bar> = \<bar>of_int (round_half_even (x / ulp)) - x / ulp\<bar> * ulp"
    using ulp_pos by (simp add: abs_mult)
  also have "\<dots> \<le> (1 / 2) * ulp"
    using round_half_even_near [of "x / ulp"] ulp_pos by (intro mult_right_mono) simp_all
  also have "\<dots> = 2 powr of_int e / 2 ^ 53"
    by (simp add: ulp_def powr_diff)
  also have "\<dots> \<le> x / 2 ^ 53"
    using low by (simp add: divide_right_mono)
  finally show ?thesis by (simp add: unit_roundoff_def)
qed

lemma fl_bounds:
  assumes "0 \<le> x"
  shows "(1 - unit_roundoff) * x \<le> fl x \<and> fl x \<le> (1 + unit_roundoff) * x"
proof (cases "x = 0")
  case True
  then show ?thesis by simp
next
  case False
  then have "\<bar>fl x - x\<bar> \<le> unit_roundoff * x"
    using assms by (intro fl_error) simp
  then show ?thesis by (simp add: abs_le_iff algebra_simps)
qed

lemma fl_eval:
  assumes "2 ^ 52 \<le> \<bar>x\<bar> * 2 ^ q" "\<bar>x\<bar> * 2 ^ q < 2 ^ 53"
  shows "fl x = of_int (round_half_even (x * 2 ^ q)) / 2 ^ q"
proof -
  have nz: "x \<noteq> 0" using assms(1) by auto
  have "2 powr (52 - real q) \<le> \<bar>x\<bar>"
    using assms(1) by (simp add: powr_diff powr_realpow field_simps)
  then have lo: "52 - real q \<le> log 2 \<bar>x\<bar>"
    using nz by (simp add: le_log_iff)
  have "\<bar>x\<bar> < 2 powr (53 - real q)"
    using assms(2) by (simp add: powr_diff powr_realpow field_simps)
  then have hi: "log 2 \<bar>x\<bar> < 53 - real q"
    using nz by (simp add: log_less_iff)
  have "\<lfloor>log 2 \<bar>x\<bar>\<rfloor> = 52 - int q"
    using lo hi by (intro floor_unique) simp_all
  then have "2 powr (of_int \<lfloor>log 2 \<bar>x\<bar>\<rfloor> - 52) = (1 :: real) / 2 ^ q"
    by (simp add: powr_minus powr_realpow divide_simps)
  then show ?thesis using nz by (simp add: fl_def Let_def)
qed


subsection \<open>Accumulated rounding errors\<close>

lemma unit_roundoff_bounds: "0 < unit_roundoff" "unit_roundoff < 1"
  by (simp_all add: unit_roundoff_def)

lemma approx_refl: "0 \<le> X \<Longrightarrow> approx 0 X X"
  by (simp add: approx_def)

lemma approx_nonneg: "approx k x X \<Longrightarrow> 0 \<le> x"
proof -
  assume a: "approx k x X"
  have "0 \<le> (1 - unit_roundoff) ^ k * X"
    using a unit_roundoff_bounds by (simp add: approx_def)
  then show ?thesis using a by (simp add: approx_def)
qed

lemma approx_mono:
  assumes "approx j x X" "j \<le> k"
  shows "approx k x X"
proof -
  have X: "0 \<le> X" using assms(1) by (simp add: approx_def)
  have "(1 - unit_roundoff) ^ k \<le> (1 - unit_roundoff) ^ j"
    using assms(2) unit_roundoff_bounds by (intro power_decreasing) simp_all
  then have lo: "(1 - unit_roundoff) ^ k * X \<le> (1 - unit_roundoff) ^ j * X"
    using X by (rule mult_right_mono)
  have "(1 + unit_roundoff) ^ j \<le> (1 + unit_roundoff) ^ k"
    using assms(2) unit_roundoff_bounds by (intro power_increasing) simp_all
  then have hi: "(1 + unit_roundoff) ^ j * X \<le> (1 + unit_roundoff) ^ k * X"
    using X by (rule mult_right_mono)
  show ?thesis using assms(1) lo hi X by (simp add: approx_def)
qed

lemma approx_fl:
  assumes "approx k x X"
  shows "approx (Suc k) (fl x) X"
proof -
  have x: "0 \<le> x" using assms by (rule approx_nonneg)
  have X: "0 \<le> X" using assms by (simp add: approx_def)
  have b: "(1 - unit_roundoff) * x \<le> fl x" "fl x \<le> (1 + unit_roundoff) * x"
    using fl_bounds [OF x] by simp_all
  have "(1 - unit_roundoff) * ((1 - unit_roundoff) ^ k * X) \<le> (1 - unit_roundoff) * x"
    using assms unit_roundoff_bounds by (intro mult_left_mono) (simp_all add: approx_def)
  moreover have "(1 + unit_roundoff) * x \<le> (1 + unit_roundoff) * ((1 + unit_roundoff) ^ k * X)"
    using assms unit_roundoff_bounds by (intro mult_left_mono) (simp_all add: approx_def)
  ultimately show ?thesis using b X by (simp add: approx_def mult.assoc)
qed

lemma approx_add:
  assumes "approx k x X" "approx k y Y"
  shows "approx k (x + y) (X + Y)"
  using assms by (simp add: approx_def distrib_left add_mono)

lemma approx_scale:
  assumes "approx k x X" "0 \<le> c"
  shows "approx k (c * x) (c * X)"
proof -
  have "c * ((1 - unit_roundoff) ^ k * X) \<le> c * x"
    using assms by (intro mult_left_mono) (simp_all add: approx_def)
  moreover have "c * x \<le> c * ((1 + unit_roundoff) ^ k * X)"
    using assms by (intro mult_left_mono) (simp_all add: approx_def)
  ultimately show ?thesis using assms by (simp add: approx_def mult.left_commute)
qed

lemma approx_zero: "approx k 0 0"
  by (simp add: approx_def)

lemma approx_pos: "approx k x X \<Longrightarrow> 0 < X \<Longrightarrow> 0 < x"
proof -
  assume a: "approx k x X" and X: "0 < X"
  have "0 < (1 - unit_roundoff) ^ k * X"
    using X unit_roundoff_bounds by simp
  then show ?thesis using a by (simp add: approx_def)
qed

lemma foldl_add_approx:
  assumes "approx j r R" "list_all2 (approx j) xs Xs"
  shows "approx (j + length xs) (foldl (\<lambda>res x. fl (res + x)) r xs) (R + sum_list Xs)"
  using assms
proof (induction xs arbitrary: r R j Xs)
  case Nil
  then show ?case by simp
next
  case (Cons x xs)
  then obtain X Xs' where Xs: "Xs = X # Xs'" "approx j x X" "list_all2 (approx j) xs Xs'"
    by (auto simp: list_all2_Cons1)
  have "approx (Suc j) (fl (r + x)) (R + X)"
    using Cons.prems(1) Xs(2) by (intro approx_fl approx_add)
  moreover have "list_all2 (approx (Suc j)) xs Xs'"
    using Xs(3) by (rule list_all2_mono) (simp add: approx_mono)
  ultimately have "approx (Suc j + length xs)
      (foldl (\<lambda>res x. fl (res + x)) (fl (r + x)) xs) (R + X + sum_list Xs')"
    by (rule Cons.IH)
  then show ?case using Xs(1) by (simp add: add.assoc)
qed


lemma pairwise_sum_short:
  "length a < 8 \<Longrightarrow> pairwise_sum a = foldl (\<lambda>res x. fl (res + x)) 0 a"
  by (subst pairwise_sum.simps) simp

lemma pairwise_sum_block:
  assumes "8 \<le> length a" "length a < 16"
  shows "pairwise_sum a =
    foldl (\<lambda>res x. fl (res + x))
      (fl (fl (fl (a ! 0 + a ! 1) + fl (a ! 2 + a ! 3)) +
           fl (fl (a ! 4 + a ! 5) + fl (a ! 6 + a ! 7))))
      (drop 8 a)"
proof -
  have "length (drop 8 a) < 8" using assms by simp
  then have "add_blocks (take 8 a) (drop 8 a) = (take 8 a, drop 8 a)"
    by (subst add_blocks.simps) simp
  then show ?thesis
    using assms by (subst pairwise_sum.simps) simp
qed

lemma take_8_nth:
  assumes "8 \<le> length xs"
  shows "take 8 xs = [xs ! 0, xs ! 1, xs ! 2, xs ! 3, xs ! 4, xs ! 5, xs ! 6, xs ! 7]"
proof -
  have "take 8 xs = map ((!) xs) [0..<8]"
    using assms by (intro nth_equalityI) simp_all
  then show ?thesis by (simp add: upt_rec eval_nat_numeral)
qed

lemma np_sum_approx:
  assumes "list_all2 (approx k) xs Xs" "length xs < 16"
  shows "approx (k + 11) (np_sum xs) (sum_list Xs)"
proof (cases "length xs < 8")
  case True
  have "approx (k + length xs) (foldl (\<lambda>res x. fl (res + x)) 0 xs) (0 + sum_list Xs)"
    using assms(1) by (intro foldl_add_approx approx_zero)
  then have "approx (Suc (k + length xs)) (fl (0 + pairwise_sum xs)) (sum_list Xs)"
    using True by (intro approx_fl) (simp add: pairwise_sum_short)
  then show ?thesis
    unfolding np_sum_def by (rule approx_mono) (use True in simp)
next
  case False
  then have len: "8 \<le> length xs" by simp
  have lenX: "length Xs = length xs"
    using assms(1) by (simp add: list_all2_lengthD)
  have nth: "approx k (xs ! i) (Xs ! i)" if "i < 8" for i
    using list_all2_nthD [OF assms(1), of i] len that by simp
  let ?head = "fl (fl (fl (xs ! 0 + xs ! 1) + fl (xs ! 2 + xs ! 3)) +
                   fl (fl (xs ! 4 + xs ! 5) + fl (xs ! 6 + xs ! 7)))"
  have p01: "approx (Suc k) (fl (xs ! 0 + xs ! 1)) (Xs ! 0 + Xs ! 1)"
    by (rule approx_fl [OF approx_add]) (simp_all add: nth)
  have p23: "approx (Suc k) (fl (xs ! 2 + xs ! 3)) (Xs ! 2 + Xs ! 3)"
    by (rule approx_fl [OF approx_add]) (simp_all add: nth)
  have p45: "approx (Suc k) (fl (xs ! 4 + xs ! 5)) (Xs ! 4 + Xs ! 5)"
    by (rule approx_fl [OF approx_add]) (simp_all add: nth)
  have p67: "approx (Suc k) (fl (xs ! 6 + xs ! 7)) (Xs ! 6 + Xs ! 7)"
    by (rule approx_fl [OF approx_add]) (simp_all add: nth)
  have "approx (Suc (Suc (Suc k))) ?head
      (Xs ! 0 + Xs ! 1 + (Xs ! 2 + Xs ! 3) + (Xs ! 4 + Xs ! 5 + (Xs ! 6 + Xs ! 7)))"
    by (rule approx_fl [OF approx_add [OF approx_fl [OF approx_add [OF p01 p23]]
          approx_fl [OF approx_add [OF p45 p67]]]])
  moreover have "sum_list (take 8 Xs) =
      Xs ! 0 + Xs ! 1 + (Xs ! 2 + Xs ! 3) + (Xs ! 4 + Xs ! 5 + (Xs ! 6 + Xs ! 7))"
    using len lenX by (simp add: take_8_nth)
  moreover have "Suc (Suc (Suc k)) = k + 3" by simp
  ultimately have head: "approx (k + 3) ?head (sum_list (take 8 Xs))"
    by (simp only:)
  have "list_all2 (approx k) (drop 8 xs) (drop 8 Xs)"
    using assms(1) by (rule list_all2_dropI)
  then have "list_all2 (approx (k + 3)) (drop 8 xs) (drop 8 Xs)"
    by (rule list_all2_mono) (simp add: approx_mono)
  with head have F: "approx (k + 3 + length (drop 8 xs))
      (foldl (\<lambda>res x. fl (res + x)) ?head (drop 8 xs))
      (sum_list (take 8 Xs) + sum_list (drop 8 Xs))"
    by (rule foldl_add_approx)
  have S: "sum_list (take 8 Xs) + sum_list (drop 8 Xs) = sum_list Xs"
    by (simp add: sum_list_append [symmetric] del: sum_list_append)
  have pw: "pairwise_sum xs = foldl (\<lambda>res x. fl (res + x)) ?head (drop 8 xs)"
    using len assms(2) by (rule pairwise_sum_block)
  have "approx (k + 3 + length (drop 8 xs)) (pairwise_sum xs) (sum_list Xs)"
    using F unfolding S pw .
  then have "approx (Suc (k + 3 + length (drop 8 xs))) (fl (0 + pairwise_sum xs)) (sum_list Xs)"
    by (intro approx_fl) simp
  then show ?thesis
    unfolding np_sum_def by (rule approx_mono) (use assms(2) in simp)
qed


lemma length_linspace: "length (linspace a b n) = n"
  by (cases "n > 1") (simp_all add: linspace_def Let_def)

lemma linspace_weights:
  assumes "0 < n"
  shows "list_all2 (approx 4) (linspace (1 / 2) 1 n) (map (spec_weight n) [0..<n])"
proof (cases "n = 1")
  case True
  have "approx 1 (fl (1 / 2)) (1 / 2)"
    using approx_fl [OF approx_refl, of "1 / 2"] by simp
  then have "approx 4 (fl (1 / 2)) (1 / 2)"
    by (rule approx_mono) simp
  then show ?thesis
    using True by (simp add: linspace_def spec_weight_def)
next
  case False
  then have n: "1 < n" using assms by simp
  define d where "d = real n - 1"
  have d: "0 < d" using n by (simp add: d_def)
  define delta where "delta = fl (1 / 2)"
  define step where "step = fl (delta / d)"
  have "approx 1 delta (1 / 2)"
    unfolding delta_def using approx_fl [OF approx_refl, of "1 / 2"] by simp
  then have "approx 1 ((1 / d) * delta) ((1 / d) * (1 / 2))"
    using d by (intro approx_scale) simp_all
  then have step: "approx 2 step (1 / (d * 2))"
    unfolding step_def using approx_fl [of 1 "(1 / d) * delta" "(1 / d) * (1 / 2)"]
    by (simp add: numeral_2_eq_2)
  then have "0 < step" using d by (intro approx_pos [OF step]) simp
  then have nz: "step \<noteq> 0" by simp
  let ?w = "\<lambda>i. fl (fl (real i * step) + 1 / 2)"
  have lin: "linspace (1 / 2) 1 n = butlast (map ?w [0..<n]) @ [1]"
    using n nz
    by (simp add: linspace_def Let_def delta_def [symmetric] d_def [symmetric]
        step_def [symmetric] comp_def)
  have w: "approx 4 (?w i) (spec_weight n i)" for i
  proof -
    have "approx 2 (real i * step) (real i * (1 / (d * 2)))"
      using step by (intro approx_scale) simp_all
    then have "approx 3 (fl (real i * step)) (real i * (1 / (d * 2)))"
      using approx_fl [of 2 "real i * step"] by (simp add: numeral_3_eq_3 numeral_2_eq_2)
    moreover have "approx 3 (1 / 2) (1 / 2)"
      using approx_mono [OF approx_refl, of "1 / 2" 3] by simp
    ultimately have "approx 3 (fl (real i * step) + 1 / 2) (real i * (1 / (d * 2)) + 1 / 2)"
      by (rule approx_add)
    then have "approx (Suc 3) (?w i) (real i * (1 / (d * 2)) + 1 / 2)"
      by (rule approx_fl)
    moreover have "real i * (1 / (d * 2)) + 1 / 2 = spec_weight n i"
      using n by (simp add: spec_weight_def d_def)
    ultimately show ?thesis by simp
  qed
  have last: "approx 4 1 (spec_weight n (n - 1))"
  proof -
    have "spec_weight n (n - 1) = 1" using n by (simp add: spec_weight_def)
    then show ?thesis using approx_mono [OF approx_refl, of 1 4] by simp
  qed
  show ?thesis
  proof (rule list_all2_all_nthI)
    show "length (linspace (1 / 2) 1 n) = length (map (spec_weight n) [0..<n])"
      by (simp add: length_linspace)
  next
    fix i
    assume "i < length (linspace (1 / 2) 1 n)"
    then have i: "i < n" by (simp add: length_linspace)
    show "approx 4 (linspace (1 / 2) 1 n ! i) (map (spec_weight n) [0..<n] ! i)"
    proof (cases "i = n - 1")
      case True
      then have "linspace (1 / 2) 1 n ! i = 1"
        unfolding lin by (simp add: nth_append)
      then show ?thesis using last True i by simp
    next
      case False
      then have "i < n - 1" using i by simp
      then have "linspace (1 / 2) 1 n ! i = ?w i"
        unfolding lin using i by (simp add: nth_append nth_butlast)
      then show ?thesis using w [of i] i by simp
    qed
  qed
qed


subsection \<open>The exact weighted average\<close>

lemma sum_list_of_nat_divide:
  "(\<Sum>i\<leftarrow>xs. real (f i) / c) = real (\<Sum>i\<leftarrow>xs. f i) / c"
  by (induction xs) (simp_all add: add_divide_distrib)

lemma sum_list_le_length:
  fixes f :: "'a \<Rightarrow> nat"
  shows "(\<And>x. x \<in> set xs \<Longrightarrow> f x \<le> B) \<Longrightarrow> (\<Sum>x\<leftarrow>xs. f x) \<le> B * length xs"
  by (induction xs) (simp_all add: add_mono)

lemma spec_weighted_average_ratio:
  assumes "h \<noteq> []" "length h < 16"
  obtains K M :: nat where "0 < M" "M \<le> 420" "spec_weighted_average h = real K / real M"
    "(\<Sum>i\<leftarrow>[0..<length h]. spec_weight (length h) i) > 0"
proof -
  define n where "n = length h"
  define c :: nat where "c = (if n \<le> 1 then 2 else 2 * (n - 1))"
  define m :: "nat \<Rightarrow> nat" where "m = (\<lambda>i. if n \<le> 1 then 1 else (n - 1) + i)"
  define K where "K = (\<Sum>i\<leftarrow>[0..<n]. m i * (if h ! i then 1 else 0))"
  define M where "M = (\<Sum>i\<leftarrow>[0..<n]. m i)"
  have n: "0 < n" "n < 16" using assms by (simp_all add: n_def)
  have c: "0 < c" using n by (simp add: c_def)
  have w: "spec_weight n i = real (m i) / real c" for i
    by (simp add: spec_weight_def m_def c_def field_simps)
  have "(\<Sum>i\<leftarrow>[0..<n]. spec_weight n i * (if h ! i then 1 else 0)) =
        (\<Sum>i\<leftarrow>[0..<n]. real (m i * (if h ! i then 1 else 0)) / real c)"
    by (intro arg_cong [where f = sum_list] map_cong) (simp_all add: w)
  then have num: "(\<Sum>i\<leftarrow>[0..<n]. spec_weight n i * (if h ! i then 1 else 0)) = real K / real c"
    by (simp only: sum_list_of_nat_divide K_def)
  have "(\<Sum>i\<leftarrow>[0..<n]. spec_weight n i) = (\<Sum>i\<leftarrow>[0..<n]. real (m i) / real c)"
    by (simp add: w)
  then have den: "(\<Sum>i\<leftarrow>[0..<n]. spec_weight n i) = real M / real c"
    by (simp only: sum_list_of_nat_divide M_def)
  have "m i \<le> 28" if "i \<in> set [0..<n]" for i
    using that n by (auto simp: m_def)
  then have "M \<le> 28 * length [0..<n]"
    unfolding M_def by (rule sum_list_le_length)
  then have M_hi: "M \<le> 420" using n by simp
  have "[0..<n] = 0 # [1..<n]" using n by (simp add: upt_rec)
  then have "M = m 0 + (\<Sum>i\<leftarrow>[1..<n]. m i)" by (simp add: M_def)
  moreover have "0 < m 0" by (simp add: m_def)
  ultimately have M_lo: "0 < M" by simp
  have "spec_weighted_average h = (real K / real c) / (real M / real c)"
    unfolding spec_weighted_average_def n_def [symmetric] num den ..
  then have avg: "spec_weighted_average h = real K / real M"
    using c by simp
  have "(\<Sum>i\<leftarrow>[0..<length h]. spec_weight (length h) i) > 0"
    unfolding n_def [symmetric] den using M_lo c by simp
  with M_lo M_hi avg show ?thesis by (rule that)
qed

lemma spec_weighted_average_gap:
  assumes "h \<noteq> []" "length h < 16"
  shows "spec_weighted_average h \<le> 3 / 5 - 1 / 2100 \<or> spec_weighted_average h = 3 / 5 \<or>
         3 / 5 + 1 / 2100 \<le> spec_weighted_average h"
proof -
  obtain K M :: nat where M: "0 < M" "M \<le> 420" and avg: "spec_weighted_average h = real K / real M"
    using assms by (rule spec_weighted_average_ratio)
  consider "5 * K + 1 \<le> 3 * M" | "5 * K = 3 * M" | "3 * M + 1 \<le> 5 * K" by linarith
  then show ?thesis
  proof cases
    case 1
    then have "real (5 * K + 1) \<le> real (3 * M)" by (simp only: of_nat_le_iff)
    then have "5 * real K + 1 \<le> 3 * real M" by simp
    moreover have "real M \<le> 420" using M(2) by simp
    ultimately have "2100 * real K \<le> 1259 * real M" by linarith
    then have "real K / real M \<le> 1259 / 2100"
      using M(1) by (simp add: field_simps)
    then show ?thesis using avg by simp
  next
    case 2
    then have "real (5 * K) = real (3 * M)" by (simp only:)
    then have "real K / real M = 3 / 5" using M(1) by (simp add: field_simps)
    then show ?thesis using avg by simp
  next
    case 3
    then have "real (3 * M + 1) \<le> real (5 * K)" by (simp only: of_nat_le_iff)
    then have "3 * real M + 1 \<le> 5 * real K" by simp
    moreover have "real M \<le> 420" using M(2) by simp
    ultimately have "1261 * real M \<le> 2100 * real K" by linarith
    then have "1261 / 2100 \<le> real K / real M"
      using M(1) by (simp add: field_simps)
    then show ?thesis using avg by simp
  qed
qed


subsection \<open>The float64 average against the exact one\<close>

lemma map2_upt:
  assumes "length a = n"
  shows "map2 f a (map g [0..<n]) = map (\<lambda>i. f (a ! i) (g i)) [0..<n]"
  using assms by (intro nth_equalityI) simp_all

lemma roundoff_margin:
  "(1 + unit_roundoff) ^ 16 * (3 / 5) < (1 - unit_roundoff) ^ 17 * (3 / 5 + 1 / 2100)"
  "(1 + unit_roundoff) ^ 17 * (3 / 5 - 1 / 2100) < (1 - unit_roundoff) ^ 16 * (3 / 5)"
  by (simp_all add: unit_roundoff_def power_divide)

lemma power_17: "(x :: real) ^ 17 = x * x ^ 16"
  by (simp add: numeral_eq_Suc)

lemma power_16: "(x :: real) ^ 16 = x * x ^ 15"
  by (simp add: numeral_eq_Suc)

lemma np_average_sums:
  assumes "h \<noteq> []" "length h < 16"
  obtains s t where
    "np_average h (linspace (1 / 2) 1 (length h)) = Inr (fl (t / s))"
    "approx 15 s (\<Sum>i\<leftarrow>[0..<length h]. spec_weight (length h) i)"
    "approx 16 t (\<Sum>i\<leftarrow>[0..<length h]. spec_weight (length h) i * (if h ! i then 1 else 0))"
    "0 < s"
proof -
  let ?n = "length h"
  let ?w = "linspace (1 / 2) 1 ?n"
  let ?W = "map (spec_weight ?n) [0..<?n]"
  let ?p = "map2 (\<lambda>b x. fl ((if b then 1 else 0) * x)) h ?w"
  let ?P = "map (\<lambda>i. spec_weight ?n i * (if h ! i then 1 else 0)) [0..<?n]"
  have n: "0 < ?n" using assms(1) by simp
  have w: "list_all2 (approx 4) ?w ?W" using n by (rule linspace_weights)
  have lw: "length ?w = ?n" by (rule length_linspace)
  have "approx (4 + 11) (np_sum ?w) (sum_list ?W)"
    using w by (rule np_sum_approx) (simp add: lw assms(2))
  then have s: "approx 15 (np_sum ?w) (sum_list ?W)" by simp
  have "0 < sum_list ?W"
    using assms by (rule spec_weighted_average_ratio)
  then have s_pos: "0 < np_sum ?w" by (rule approx_pos [OF s])
  have p: "list_all2 (approx 5) ?p ?P"
  proof (rule list_all2_all_nthI)
    show "length ?p = length ?P" by (simp add: lw)
  next
    fix i
    assume "i < length ?p"
    then have i: "i < ?n" by (simp add: lw)
    have wi: "approx 4 (?w ! i) (spec_weight ?n i)"
      using list_all2_nthD [OF w, of i] i lw by simp
    have "approx 5 (fl ((if h ! i then 1 else 0) * ?w ! i))
            (spec_weight ?n i * (if h ! i then 1 else 0))"
    proof (cases "h ! i")
      case True
      then show ?thesis using approx_fl [OF wi] by simp
    next
      case False
      then show ?thesis by (simp add: approx_zero)
    qed
    then show "approx 5 (?p ! i) (?P ! i)" using i lw by simp
  qed
  have "approx (5 + 11) (np_sum ?p) (sum_list ?P)"
    using p by (rule np_sum_approx) (simp add: lw assms(2))
  then have t: "approx 16 (np_sum ?p) (sum_list ?P)" by simp
  have "np_average h ?w = Inr (fl (np_sum ?p / np_sum ?w))"
    using s_pos by (simp add: np_average_def lw Let_def)
  then show ?thesis using s t s_pos by (rule that)
qed

lemma np_average_defined:
  assumes "h \<noteq> []" "length h < 16"
  shows "\<exists>w. np_average h (linspace (1 / 2) 1 (length h)) = Inr w"
  using assms by (rule np_average_sums) blast

lemma np_average_decision:
  assumes "h \<noteq> []" "length h < 16" "spec_weighted_average h \<noteq> 3 / 5"
    and "np_average h (linspace (1 / 2) 1 (length h)) = Inr w"
  shows "(fl (3 / 5) < w) = (3 / 5 < spec_weighted_average h)"
proof -
  let ?u = unit_roundoff
  let ?S = "\<Sum>i\<leftarrow>[0..<length h]. spec_weight (length h) i"
  let ?T = "\<Sum>i\<leftarrow>[0..<length h]. spec_weight (length h) i * (if h ! i then 1 else 0)"
  obtain s t where avg: "np_average h (linspace (1 / 2) 1 (length h)) = Inr (fl (t / s))"
    and s: "approx 15 s ?S" and t: "approx 16 t ?T" and s_pos: "0 < s"
    using assms(1,2) by (rule np_average_sums)
  have w: "w = fl (t / s)" using avg assms(4) by simp
  have S_pos: "0 < ?S" using assms(1,2) by (rule spec_weighted_average_ratio)
  have A: "spec_weighted_average h = ?T / ?S" by (simp add: spec_weighted_average_def)
  have t0: "0 \<le> t" using t by (rule approx_nonneg)
  have u: "0 < ?u" "?u < 1" by (rule unit_roundoff_bounds)+
  have q: "(1 - ?u) * (t / s) \<le> w" "w \<le> (1 + ?u) * (t / s)"
    using fl_bounds [of "t / s"] t0 s_pos by (simp_all add: w)
  have c: "(1 - ?u) * (3 / 5) \<le> fl (3 / 5)" "fl (3 / 5) \<le> (1 + ?u) * (3 / 5)"
    using fl_bounds [of "3 / 5"] by simp_all
  have s_lo: "(1 - ?u) ^ 15 * ?S \<le> s" and s_hi: "s \<le> (1 + ?u) ^ 15 * ?S"
    using s by (simp_all add: approx_def)
  have t_lo: "(1 - ?u) ^ 16 * ?T \<le> t" and t_hi: "t \<le> (1 + ?u) ^ 16 * ?T"
    using t by (simp_all add: approx_def)
  consider "spec_weighted_average h \<le> 3 / 5 - 1 / 2100" | "3 / 5 + 1 / 2100 \<le> spec_weighted_average h"
    using spec_weighted_average_gap [OF assms(1,2)] assms(3) by blast
  then show ?thesis
  proof cases
    case 1
    then have T: "?T \<le> (3 / 5 - 1 / 2100) * ?S"
      using S_pos by (simp add: A pos_divide_le_eq)
    have "(1 + ?u) * t \<le> (1 + ?u) * ((1 + ?u) ^ 16 * ?T)"
      using t_hi u by (intro mult_left_mono) simp_all
    also have "\<dots> = (1 + ?u) ^ 17 * ?T" by (simp only: power_17 mult.assoc)
    also have "\<dots> \<le> (1 + ?u) ^ 17 * ((3 / 5 - 1 / 2100) * ?S)"
      using T u by (intro mult_left_mono) simp_all
    also have "\<dots> = ((1 + ?u) ^ 17 * (3 / 5 - 1 / 2100)) * ?S" by simp
    also have "\<dots> \<le> ((1 - ?u) ^ 16 * (3 / 5)) * ?S"
      using roundoff_margin(2) S_pos by (intro mult_right_mono) simp_all
    also have "\<dots> = ((1 - ?u) * (3 / 5)) * ((1 - ?u) ^ 15 * ?S)"
      by (simp only: power_16 mult_ac)
    also have "\<dots> \<le> ((1 - ?u) * (3 / 5)) * s"
      using s_lo u by (intro mult_left_mono) simp_all
    finally have "(1 + ?u) * t \<le> ((1 - ?u) * (3 / 5)) * s" .
    then have "(1 + ?u) * (t / s) \<le> (1 - ?u) * (3 / 5)"
      using s_pos by (simp add: pos_divide_le_eq)
    then have "w \<le> fl (3 / 5)" using q(2) c(1) by linarith
    moreover have "\<not> 3 / 5 < spec_weighted_average h" using 1 by simp
    ultimately show ?thesis by simp
  next
    case 2
    then have T: "(3 / 5 + 1 / 2100) * ?S \<le> ?T"
      using S_pos by (simp add: A pos_le_divide_eq)
    have "((1 + ?u) * (3 / 5)) * s \<le> ((1 + ?u) * (3 / 5)) * ((1 + ?u) ^ 15 * ?S)"
      using s_hi u by (intro mult_left_mono) simp_all
    also have "\<dots> = ((1 + ?u) ^ 16 * (3 / 5)) * ?S"
      by (simp only: power_16 mult_ac)
    also have "\<dots> < ((1 - ?u) ^ 17 * (3 / 5 + 1 / 2100)) * ?S"
      using roundoff_margin(1) S_pos by (intro mult_strict_right_mono) simp_all
    also have "\<dots> = (1 - ?u) ^ 17 * ((3 / 5 + 1 / 2100) * ?S)" by simp
    also have "\<dots> \<le> (1 - ?u) ^ 17 * ?T"
      using T u by (intro mult_left_mono) simp_all
    also have "\<dots> = (1 - ?u) * ((1 - ?u) ^ 16 * ?T)" by (simp only: power_17 mult.assoc)
    also have "\<dots> \<le> (1 - ?u) * t"
      using t_lo u by (intro mult_left_mono) simp_all
    finally have "((1 + ?u) * (3 / 5)) * s < (1 - ?u) * t" .
    then have "(1 + ?u) * (3 / 5) < (1 - ?u) * (t / s)"
      using s_pos by (simp add: pos_less_divide_eq)
    then have "fl (3 / 5) < w" using q(1) c(2) by linarith
    moreover have "3 / 5 < spec_weighted_average h" using 2 by simp
    ultimately show ?thesis by simp
  qed
qed

lemma fl_value_0: "fl (1 / 10) = 3602879701896397 / 36028797018963968"
  by (subst fl_eval [where q = 56]) (simp_all add: round_half_even_def)

lemma fl_value_1: "fl (3602879701896397 / 36028797018963968) = 3602879701896397 / 36028797018963968"
  by (subst fl_eval [where q = 56]) (simp_all add: round_half_even_def)

lemma fl_value_2: "fl (900719925474099 / 4503599627370496) = 900719925474099 / 4503599627370496"
  by (subst fl_eval [where q = 55]) (simp_all add: round_half_even_def)

lemma fl_value_3: "fl (1 / 5) = 3602879701896397 / 18014398509481984"
  by (subst fl_eval [where q = 55]) (simp_all add: round_half_even_def)

lemma fl_value_4: "fl (3602879701896397 / 18014398509481984) = 3602879701896397 / 18014398509481984"
  by (subst fl_eval [where q = 55]) (simp_all add: round_half_even_def)

lemma fl_value_5: "fl (3 / 10) = 5404319552844595 / 18014398509481984"
  by (subst fl_eval [where q = 54]) (simp_all add: round_half_even_def)

lemma fl_value_6: "fl (10808639105689191 / 36028797018963968) = 1351079888211149 / 4503599627370496"
  by (subst fl_eval [where q = 54]) (simp_all add: round_half_even_def)

lemma fl_value_7: "fl (2 / 5) = 3602879701896397 / 9007199254740992"
  by (subst fl_eval [where q = 54]) (simp_all add: round_half_even_def)

lemma fl_value_8: "fl (3602879701896397 / 9007199254740992) = 3602879701896397 / 9007199254740992"
  by (subst fl_eval [where q = 54]) (simp_all add: round_half_even_def)

lemma fl_value_9: "fl (1 / 2) = 1 / 2"
  by (subst fl_eval [where q = 53]) (simp_all add: round_half_even_def)

lemma fl_value_10: "fl (18014398509481985 / 36028797018963968) = 1 / 2"
  by (subst fl_eval [where q = 53]) (simp_all add: round_half_even_def)

lemma fl_value_11: "fl (3 / 5) = 5404319552844595 / 9007199254740992"
  by (subst fl_eval [where q = 53]) (simp_all add: round_half_even_def)

lemma fl_value_12: "fl (21617278211378381 / 36028797018963968) = 5404319552844595 / 9007199254740992"
  by (subst fl_eval [where q = 53]) (simp_all add: round_half_even_def)

lemma fl_value_13: "fl (3039929748475085 / 5066549580791808) = 1351079888211149 / 2251799813685248"
  by (subst fl_eval [where q = 53]) (simp_all add: round_half_even_def)

lemma fl_value_14: "fl (7 / 10) = 3152519739159347 / 4503599627370496"
  by (subst fl_eval [where q = 53]) (simp_all add: round_half_even_def)

lemma fl_value_15: "fl (12610078956637389 / 18014398509481984) = 3152519739159347 / 4503599627370496"
  by (subst fl_eval [where q = 53]) (simp_all add: round_half_even_def)

lemma fl_value_16: "fl (3602879701896397 / 4503599627370496) = 3602879701896397 / 4503599627370496"
  by (subst fl_eval [where q = 53]) (simp_all add: round_half_even_def)

lemma fl_value_17: "fl (8106479329266893 / 9007199254740992) = 8106479329266893 / 9007199254740992"
  by (subst fl_eval [where q = 53]) (simp_all add: round_half_even_def)

lemma fl_value_18: "fl (1) = 1"
  by (subst fl_eval [where q = 52]) (simp_all add: round_half_even_def)

lemma fl_value_19: "fl (9907919180215091 / 9007199254740992) = 2476979795053773 / 2251799813685248"
  by (subst fl_eval [where q = 52]) (simp_all add: round_half_even_def)

lemma fl_value_20: "fl (15312238733059687 / 9007199254740992) = 1914029841632461 / 1125899906842624"
  by (subst fl_eval [where q = 52]) (simp_all add: round_half_even_def)

lemma fl_value_21: "fl (8106479329266893 / 4503599627370496) = 8106479329266893 / 4503599627370496"
  by (subst fl_eval [where q = 52]) (simp_all add: round_half_even_def)

lemma fl_value_22: "fl (5854679515581645 / 2251799813685248) = 5854679515581645 / 2251799813685248"
  by (subst fl_eval [where q = 51]) (simp_all add: round_half_even_def)

lemma fl_value_23: "fl (3039929748475085 / 1125899906842624) = 3039929748475085 / 1125899906842624"
  by (subst fl_eval [where q = 51]) (simp_all add: round_half_even_def)

lemma fl_value_24: "fl (31525197391593473 / 9007199254740992) = 7 / 2"
  by (subst fl_eval [where q = 51]) (simp_all add: round_half_even_def)

lemma fl_value_25: "fl (9 / 2) = 9 / 2"
  by (subst fl_eval [where q = 50]) (simp_all add: round_half_even_def)

lemmas fl_values =
  fl_value_0 fl_value_1 fl_value_2 fl_value_3 fl_value_4 fl_value_5 fl_value_6 fl_value_7 fl_value_8 fl_value_9 fl_value_10 fl_value_11 fl_value_12 fl_value_13 fl_value_14 fl_value_15 fl_value_16 fl_value_17 fl_value_18 fl_value_19 fl_value_20 fl_value_21 fl_value_22 fl_value_23 fl_value_24 fl_value_25






text \<open>
  The percentage of 23 focused seconds out of 80 is 28.749999999999996 in float64 and is
  reported as 28.7.
\<close>

lemma percentage_value_0: "fl (23 / 80) = 2589569785738035 / 9007199254740992"
  by (subst fl_eval [where q = 54]) (simp_all add: round_half_even_def)

lemma percentage_value_1:
  "fl (2589569785738035 / 9007199254740992 * 100) = 8092405580431359 / 281474976710656"
  by (subst fl_eval [where q = 48]) (simp_all add: round_half_even_def)

lemma percentage_rounding: "py_round1 (fl (fl (23 / 80) * 100)) = 28.7"
  unfolding percentage_value_0 percentage_value_1 by (simp add: py_round1_def Let_def)

lemma linspace_6:
  "linspace (1 / 2) 1 6 =
     [1 / 2, 5404319552844595 / 9007199254740992, 3152519739159347 / 4503599627370496,
      3602879701896397 / 4503599627370496, 8106479329266893 / 9007199254740992, 1]"
  by (simp add: linspace_def Let_def upt_rec fl_values)

lemma average_FFFTTT:
  "np_average [False, False, False, True, True, True] (linspace (1 / 2) 1 6) =
     Inr (1351079888211149 / 2251799813685248)"
  by (simp add: linspace_6 np_average_def np_sum_def pairwise_sum_short Let_def fl_values)



subsection \<open>One update of the smoother\<close>

lemma next_history_length:
  "focus_history_size s = 15 \<Longrightarrow> length (focus_history s) \<le> 15 \<Longrightarrow>
   length (next_history s b) \<le> 15"
  by (simp add: next_history_def)

lemma next_history_bounded:
  assumes "bounded_history s"
  shows "next_history s b \<noteq> []" "length (next_history s b) < 16"
proof -
  show "next_history s b \<noteq> []"
    using assms by (cases "focus_history s") (auto simp: next_history_def bounded_history_def)
  have "length (next_history s b) \<le> 15"
    using assms by (intro next_history_length) (simp_all add: bounded_history_def)
  then show "length (next_history s b) < 16" by simp
qed

lemma update_focus_state_decided:
  assumes "np_average (next_history s b) (linspace (1 / 2) 1 (length (next_history s b))) = Inr w"
  shows "update_focus_state s b t =
     (if (fl (3 / 5) < w) = is_focused s then s\<lparr>focus_history := next_history s b\<rparr>
      else if is_focused s then leave_focused (s\<lparr>focus_history := next_history s b\<rparr>) t
      else leave_unfocused (s\<lparr>focus_history := next_history s b\<rparr>) t, None)"
  using assms
  by (auto simp: update_focus_state_def next_history_def leave_focused_def leave_unfocused_def
        Let_def)

lemma update_focus_state_cases [consumes 1, case_names same unfocus focus]:
  assumes "bounded_history s"
  obtains
    (same) "update_focus_state s b t = (s\<lparr>focus_history := next_history s b\<rparr>, None)"
  | (unfocus) "is_focused s"
      "update_focus_state s b t = (leave_focused (s\<lparr>focus_history := next_history s b\<rparr>) t, None)"
  | (focus) "\<not> is_focused s"
      "update_focus_state s b t = (leave_unfocused (s\<lparr>focus_history := next_history s b\<rparr>) t, None)"
proof -
  obtain w where w: "np_average (next_history s b) (linspace (1 / 2) 1 (length (next_history s b))) = Inr w"
    using np_average_defined [OF next_history_bounded [OF assms]] by blast
  note up = update_focus_state_decided [OF w, of t]
  show ?thesis
  proof (cases "(fl (3 / 5) < w) = is_focused s")
    case True
    then have "update_focus_state s b t = (s\<lparr>focus_history := next_history s b\<rparr>, None)"
      using up by simp
    then show ?thesis by (rule same)
  next
    case False
    show ?thesis
    proof (cases "is_focused s")
      case True
      with False have "update_focus_state s b t = (leave_focused (s\<lparr>focus_history := next_history s b\<rparr>) t, None)"
        using up by simp
      with True show ?thesis by (rule unfocus)
    next
      case F: False
      with False have "update_focus_state s b t = (leave_unfocused (s\<lparr>focus_history := next_history s b\<rparr>) t, None)"
        using up by simp
      with F show ?thesis by (rule focus)
    qed
  qed
qed

text \<open>Off the ties the float64 average decides as the exact one does.\<close>

lemma update_focus_state_exact:
  assumes "focus_history_size s = 15" "length (focus_history s) \<le> 15"
    and "spec_weighted_average (next_history s b) \<noteq> 3 / 5"
  shows "update_focus_state s b t =
     (if spec_smoothed (next_history s b) = is_focused s
      then s\<lparr>focus_history := next_history s b\<rparr>
      else if is_focused s then leave_focused (s\<lparr>focus_history := next_history s b\<rparr>) t
      else leave_unfocused (s\<lparr>focus_history := next_history s b\<rparr>) t, None)"
proof -
  have bounded: "bounded_history s" using assms(1,2) by (simp add: bounded_history_def)
  obtain w where w: "np_average (next_history s b) (linspace (1 / 2) 1 (length (next_history s b))) = Inr w"
    using np_average_defined [OF next_history_bounded [OF bounded]] by blast
  have "(fl (3 / 5) < w) = (3 / 5 < spec_weighted_average (next_history s b))"
    using next_history_bounded [OF bounded] assms(3) w by (rule np_average_decision)
  then have "(fl (3 / 5) < w) = spec_smoothed (next_history s b)"
    by (simp add: spec_smoothed_def)
  then show ?thesis using update_focus_state_decided [OF w, of t] by simp
qed

lemma update_focus_state_is_focused:
  assumes "bounded_history s" "spec_weighted_average (next_history s b) \<noteq> 3 / 5"
  shows "is_focused (fst (update_focus_state s b t)) = spec_smoothed (next_history s b)"
proof -
  have "focus_history_size s = 15" "length (focus_history s) \<le> 15"
    using assms(1) by (simp_all add: bounded_history_def)
  then show ?thesis
    using assms(2)
    by (simp add: update_focus_state_exact leave_focused_def leave_unfocused_def)
qed

lemma update_focus_state_float:
  assumes "np_average (next_history s b) (linspace (1 / 2) 1 (length (next_history s b))) = Inr w"
  shows "is_focused (fst (update_focus_state s b t)) = (fl (3 / 5) < w)"
  using update_focus_state_decided [OF assms, of t]
  by (auto simp: leave_focused_def leave_unfocused_def)

subsection \<open>Evaluation of the example inputs\<close>

lemmas service_defs =
  run_def start_session_def get_or_create_session_def stop_session_def process_frame_def
  process_frame_session_def handle_countdown_def update_focus_state_exact analyze_gaze_def
  get_session_metrics_def effective_times_def py_round1_def
  next_history_def spec_smoothed_def spec_weighted_average_def spec_weight_def
  leave_focused_def leave_unfocused_def fl_values
  truthy_time_def truthy_str_def ClientSession_init_def Let_def
  clock_at_def centred_def away_def start_S1_def

lemma focus_then_away_accounting:
  "map_option accounting (run Map.empty focus_then_away ''S1'') = Some (False, 2, 0, None, Some 5)"
  by (simp add: focus_then_away_def service_defs accounting_def upt_rec)

lemma focus_then_away_positive:
  "\<forall>e\<in>set focus_then_away. \<forall>t\<in>set (clock_readings e). 0 < t"
  by (simp add: focus_then_away_def start_S1_def clock_at_def)

subsection \<open>Steps\<close>

lemma step_cases [case_names unchanged removed started stopped framed]:
  obtains
    (unchanged) "step m e sid = m sid"
  | (removed) now where "e = CleanupInactive now" "step m e sid = None"
  | (started) uid mid sec t_init now s where
      "e = StartSession sid uid mid sec t_init now"
      "m sid = Some s \<or> (m sid = None \<and> s = ClientSession_init uid mid sec t_init)"
      "step m e sid = Some (rearm s now)"
  | (stopped) now s where
      "e = StopSession sid now" "m sid = Some s" "step m e sid = Some (halt s)"
  | (framed) fr rnd clk s where
      "e = ProcessFrame sid (Some fr) rnd clk" "m sid = Some s"
      "step m e sid = Some (fst (process_frame_session s fr rnd clk))"
proof (cases e)
  case (StartSession sid' uid mid sec t_init now)
  show ?thesis
  proof (cases "sid' = sid")
    case False
    then have "step m e sid = m sid"
      using StartSession
      by (auto simp: start_session_def get_or_create_session_def Let_def split: option.splits)
    then show ?thesis by (rule unchanged)
  next
    case True
    show ?thesis
    proof (cases "m sid")
      case (Some s)
      then have "step m e sid = Some (rearm s now)"
        using StartSession True
        by (simp add: start_session_def get_or_create_session_def rearm_def)
      with StartSession True Some show ?thesis by (intro started [of uid mid sec t_init now s]) auto
    next
      case None
      show ?thesis
      proof (cases "truthy_str uid \<and> truthy_str mid")
        case T: True
        then have "step m e sid = Some (rearm (ClientSession_init uid mid sec t_init) now)"
          using StartSession True None
          by (simp add: start_session_def get_or_create_session_def rearm_def Let_def)
        with StartSession True None show ?thesis
          by (intro started [of uid mid sec t_init now "ClientSession_init uid mid sec t_init"]) auto
      next
        case False
        then have "step m e sid = m sid"
          using StartSession True None
          by (auto simp: start_session_def get_or_create_session_def)
        then show ?thesis by (rule unchanged)
      qed
    qed
  qed
next
  case (ProcessFrame sid' fd rnd clk)
  show ?thesis
  proof (cases "sid' = sid \<and> m sid \<noteq> None \<and> fd \<noteq> None")
    case False
    then have "step m e sid = m sid"
      using ProcessFrame
      by (auto simp: process_frame_def split: option.splits prod.splits)
    then show ?thesis by (rule unchanged)
  next
    case True
    then obtain s fr where "m sid = Some s" "fd = Some fr" by auto
    with True ProcessFrame show ?thesis
      by (intro framed [of fr rnd clk s]) (auto simp: process_frame_def split: prod.splits)
  qed
next
  case (StopSession sid' now)
  show ?thesis
  proof (cases "sid' = sid \<and> m sid \<noteq> None")
    case False
    then have "step m e sid = m sid"
      using StopSession by (auto simp: stop_session_def Let_def split: option.splits)
    then show ?thesis by (rule unchanged)
  next
    case True
    then obtain s where "m sid = Some s" by auto
    with True StopSession show ?thesis
      by (intro stopped [of now s]) (auto simp: stop_session_def halt_def Let_def)
  qed
next
  case (GetStatus sid' now)
  then have "step m e sid = m sid" by simp
  then show ?thesis by (rule unchanged)
next
  case (CleanupInactive now)
  show ?thesis
  proof (cases "step m e sid")
    case None
    with CleanupInactive show ?thesis by (intro removed [of now])
  next
    case (Some s)
    then have "step m e sid = m sid"
      using CleanupInactive
      by (auto simp: cleanup_inactive_sessions_def split: option.splits if_splits)
    then show ?thesis by (rule unchanged)
  qed
qed


subsection \<open>Well-formed sessions\<close>

lemma well_formed_init: "well_formed (ClientSession_init uid mid sec t)"
  by (simp add: well_formed_def ClientSession_init_def)

lemma well_formed_rearm: "well_formed s \<Longrightarrow> well_formed (rearm s now)"
  by (simp add: well_formed_def rearm_def)

lemma well_formed_halt: "well_formed s \<Longrightarrow> well_formed (halt s)"
  by (simp add: well_formed_def halt_def)

lemma handle_countdown_no_error:
  "well_formed s \<Longrightarrow> snd (handle_countdown s clk) = None"
  by (auto simp: handle_countdown_def well_formed_def Let_def split: option.splits if_splits)

lemma handle_countdown_well_formed:
  "well_formed s \<Longrightarrow> well_formed (fst (handle_countdown s clk))"
  by (auto simp: handle_countdown_def well_formed_def Let_def split: option.splits if_splits)

lemma handle_countdown_accounting:
  "accounting (fst (handle_countdown s clk)) = accounting s"
  by (auto simp: handle_countdown_def accounting_def Let_def split: option.splits)


lemma update_focus_state_no_error:
  assumes "bounded_history s"
  shows "snd (update_focus_state s b t) = None"
  using assms
  by (cases rule: update_focus_state_cases [where b = b and t = t]) simp_all

lemma update_focus_state_well_formed:
  assumes "well_formed s"
  shows "well_formed (fst (update_focus_state s b t))"
proof -
  have "bounded_history s" using assms by (simp add: well_formed_def bounded_history_def)
  moreover have "length (next_history s b) \<le> 15"
    using assms by (intro next_history_length) (simp_all add: well_formed_def)
  ultimately show ?thesis
    using assms
    by (cases rule: update_focus_state_cases [where b = b and t = t])
       (simp_all add: well_formed_def leave_focused_def leave_unfocused_def)
qed


lemma process_frame_session_fst:
  assumes "well_formed s"
  shows "fst (process_frame_session s fr rnd clk) =
     (let s2 = fst (handle_countdown
                 (s\<lparr>last_frame_time := clk_last_frame clk,
                    frames_processed := frames_processed s + 1\<rparr>) clk)
      in if is_tracking s2
         then fst (update_focus_state s2 (analyze_gaze fr s2 rnd) (clk_update clk))
         else s2)"
proof -
  let ?s1 = "s\<lparr>last_frame_time := clk_last_frame clk, frames_processed := frames_processed s + 1\<rparr>"
  have wf1: "well_formed ?s1" using assms by (simp add: well_formed_def)
  obtain s2 where hc: "handle_countdown ?s1 clk = (s2, None)"
    using handle_countdown_no_error [OF wf1, of clk] by (cases "handle_countdown ?s1 clk") auto
  have "well_formed s2"
    using handle_countdown_well_formed [OF wf1, of clk] hc by simp
  then have pos: "bounded_history s2" by (simp add: well_formed_def bounded_history_def)
  show ?thesis
  proof (cases "is_tracking s2")
    case False
    then show ?thesis using hc by (simp add: process_frame_session_def Let_def)
  next
    case True
    obtain s3 where up: "update_focus_state s2 (analyze_gaze fr s2 rnd) (clk_update clk) = (s3, None)"
      using update_focus_state_no_error [OF pos, of "analyze_gaze fr s2 rnd" "clk_update clk"]
      by (cases "update_focus_state s2 (analyze_gaze fr s2 rnd) (clk_update clk)") auto
    with True show ?thesis using hc by (simp add: process_frame_session_def Let_def)
  qed
qed

lemma process_frame_session_succeeds:
  assumes "well_formed s"
  shows "\<exists>r. snd (process_frame_session s fr rnd clk) = Success r"
proof -
  let ?s1 = "s\<lparr>last_frame_time := clk_last_frame clk, frames_processed := frames_processed s + 1\<rparr>"
  have wf1: "well_formed ?s1" using assms by (simp add: well_formed_def)
  obtain s2 where hc: "handle_countdown ?s1 clk = (s2, None)"
    using handle_countdown_no_error [OF wf1, of clk] by (cases "handle_countdown ?s1 clk") auto
  have "well_formed s2"
    using handle_countdown_well_formed [OF wf1, of clk] hc by simp
  then have pos: "bounded_history s2" by (simp add: well_formed_def bounded_history_def)
  show ?thesis
  proof (cases "is_tracking s2")
    case False
    then show ?thesis using hc by (simp add: process_frame_session_def Let_def)
  next
    case True
    obtain s3 where up: "update_focus_state s2 (analyze_gaze fr s2 rnd) (clk_update clk) = (s3, None)"
      using update_focus_state_no_error [OF pos, of "analyze_gaze fr s2 rnd" "clk_update clk"]
      by (cases "update_focus_state s2 (analyze_gaze fr s2 rnd) (clk_update clk)") auto
    with True show ?thesis using hc by (simp add: process_frame_session_def Let_def)
  qed
qed

lemma process_frame_session_well_formed:
  assumes "well_formed s"
  shows "well_formed (fst (process_frame_session s fr rnd clk))"
proof -
  let ?s1 = "s\<lparr>last_frame_time := clk_last_frame clk, frames_processed := frames_processed s + 1\<rparr>"
  have wf1: "well_formed ?s1" using assms by (simp add: well_formed_def)
  then have "well_formed (fst (handle_countdown ?s1 clk))"
    by (rule handle_countdown_well_formed)
  then show ?thesis
    by (simp add: process_frame_session_fst [OF assms] Let_def update_focus_state_well_formed)
qed

lemma step_well_formed:
  assumes "\<And>s. m sid = Some s \<Longrightarrow> well_formed s"
    and "step m e sid = Some s'"
  shows "well_formed s'"
proof (cases rule: step_cases [where m = m and e = e and sid = sid])
  case unchanged
  with assms show ?thesis by simp
next
  case (removed now)
  with assms show ?thesis by simp
next
  case (started uid mid sec t_init now s)
  then have "well_formed s" using assms(1) well_formed_init by auto
  then have "well_formed (rearm s now)" by (rule well_formed_rearm)
  with started(3) assms(2) show ?thesis by simp
next
  case (stopped now s)
  then have "well_formed (halt s)" using assms(1) by (simp add: well_formed_halt)
  with stopped(3) assms(2) show ?thesis by simp
next
  case (framed fr rnd clk s)
  then have "well_formed (fst (process_frame_session s fr rnd clk))"
    using assms(1) by (simp add: process_frame_session_well_formed)
  with framed(3) assms(2) show ?thesis by simp
qed

lemma run_Cons: "run m (e # es) = run (step m e) es"
  by (simp add: run_def)

lemma run_snoc: "run m (es @ [e]) = step (run m es) e"
  by (simp add: run_def)

lemma run_session_invariant:
  assumes "\<And>s. m sid = Some s \<Longrightarrow> P s"
    and "\<And>m e s'. e \<in> set evs \<Longrightarrow> (\<And>s. m sid = Some s \<Longrightarrow> P s) \<Longrightarrow>
           step m e sid = Some s' \<Longrightarrow> P s'"
    and "run m evs sid = Some s'"
  shows "P s'"
  using assms
proof (induction evs arbitrary: m s')
  case Nil
  then show ?case by (simp add: run_def)
next
  case (Cons e es)
  have "\<And>s. step m e sid = Some s \<Longrightarrow> P s"
    using Cons.prems(1,2) by (meson list.set_intros(1))
  moreover have "run (step m e) es sid = Some s'"
    using Cons.prems(3) by (simp add: run_Cons)
  ultimately show ?case
    using Cons.prems(2) by (intro Cons.IH [of "step m e" s']) (auto simp: list.set_intros)
qed

lemma run_well_formed:
  assumes "\<And>s. m sid = Some s \<Longrightarrow> well_formed s"
    and "run m evs sid = Some s'"
  shows "well_formed s'"
proof (rule run_session_invariant [where P = well_formed, OF _ _ assms(2)])
  show "\<And>s. m sid = Some s \<Longrightarrow> well_formed s" by (rule assms(1))
  show "\<And>m e s'. (\<And>s. m sid = Some s \<Longrightarrow> well_formed s) \<Longrightarrow> step m e sid = Some s' \<Longrightarrow> well_formed s'"
    by (rule step_well_formed)
qed

lemma reachable_well_formed: "run Map.empty evs sid = Some s \<Longrightarrow> well_formed s"
  by (rule run_well_formed [of Map.empty]) simp_all

lemma reachable_history_bounded:
  "run Map.empty evs sid = Some s \<Longrightarrow>
   focus_history_size s = 15 \<and> length (focus_history s) \<le> 15"
  using reachable_well_formed [of evs sid s] by (simp add: well_formed_def)

subsection \<open>The time accounting of one frame\<close>

lemma update_focus_state_accounting [consumes 1, case_names same unfocus focus]:
  assumes "bounded_history s"
  obtains
    (same) "accounting (fst (update_focus_state s b t)) = accounting s"
  | (unfocus) "is_focused s"
      "accounting (fst (update_focus_state s b t)) = accounting (leave_focused s t)"
  | (focus) "\<not> is_focused s"
      "accounting (fst (update_focus_state s b t)) = accounting (leave_unfocused s t)"
  using assms
proof (cases rule: update_focus_state_cases [where b = b and t = t])
  case same
  then have "accounting (fst (update_focus_state s b t)) = accounting s"
    by (simp add: accounting_def)
  then show ?thesis by (rule that(1))
next
  case unfocus
  then have "accounting (fst (update_focus_state s b t)) = accounting (leave_focused s t)"
    by (simp add: accounting_def leave_focused_def)
  with unfocus(1) show ?thesis by (rule that(2))
next
  case focus
  then have "accounting (fst (update_focus_state s b t)) = accounting (leave_unfocused s t)"
    by (simp add: accounting_def leave_unfocused_def)
  with focus(1) show ?thesis by (rule that(3))
qed

lemma leave_focused_cong:
  "accounting s1 = accounting s \<Longrightarrow> accounting (leave_focused s1 t) = accounting (leave_focused s t)"
  by (simp add: accounting_def leave_focused_def)

lemma leave_unfocused_cong:
  "accounting s1 = accounting s \<Longrightarrow> accounting (leave_unfocused s1 t) = accounting (leave_unfocused s t)"
  by (simp add: accounting_def leave_unfocused_def)

lemma process_frame_session_accounting [consumes 1, case_names same unfocus focus]:
  assumes "well_formed s"
  obtains
    (same) "accounting (fst (process_frame_session s fr rnd clk)) = accounting s"
  | (unfocus) "is_focused s"
      "accounting (fst (process_frame_session s fr rnd clk)) =
       accounting (leave_focused s (clk_update clk))"
  | (focus) "\<not> is_focused s"
      "accounting (fst (process_frame_session s fr rnd clk)) =
       accounting (leave_unfocused s (clk_update clk))"
proof -
  let ?s1 = "s\<lparr>last_frame_time := clk_last_frame clk, frames_processed := frames_processed s + 1\<rparr>"
  let ?s2 = "fst (handle_countdown ?s1 clk)"
  have wf1: "well_formed ?s1" using assms by (simp add: well_formed_def)
  then have "well_formed ?s2" by (rule handle_countdown_well_formed)
  then have pos: "bounded_history ?s2" by (simp add: well_formed_def bounded_history_def)
  have acc2: "accounting ?s2 = accounting s"
    by (simp add: handle_countdown_accounting) (simp add: accounting_def)
  then have foc2: "is_focused ?s2 = is_focused s" by (simp add: accounting_def)
  show ?thesis
  proof (cases "is_tracking ?s2")
    case False
    then have "accounting (fst (process_frame_session s fr rnd clk)) = accounting s"
      using acc2 by (simp add: process_frame_session_fst [OF assms] Let_def)
    then show ?thesis by (rule same)
  next
    case True
    then have eq: "fst (process_frame_session s fr rnd clk) =
        fst (update_focus_state ?s2 (analyze_gaze fr ?s2 rnd) (clk_update clk))"
      by (simp add: process_frame_session_fst [OF assms] Let_def)
    from pos show ?thesis
    proof (cases rule: update_focus_state_accounting
        [where b = "analyze_gaze fr ?s2 rnd" and t = "clk_update clk"])
      case same
      then have "accounting (fst (process_frame_session s fr rnd clk)) = accounting s"
        using eq acc2 by simp
      then show ?thesis by (rule that(1))
    next
      case unfocus
      then have "accounting (fst (process_frame_session s fr rnd clk)) =
          accounting (leave_focused s (clk_update clk))"
        using eq leave_focused_cong [OF acc2] by simp
      moreover have "is_focused s" using unfocus(1) foc2 by simp
      ultimately show ?thesis using that(2) by blast
    next
      case focus
      then have "accounting (fst (process_frame_session s fr rnd clk)) =
          accounting (leave_unfocused s (clk_update clk))"
        using eq leave_unfocused_cong [OF acc2] by simp
      moreover have "\<not> is_focused s" using focus(1) foc2 by simp
      ultimately show ?thesis using that(3) by blast
    qed
  qed
qed

lemma accounting_rearm:
  "accounting (rearm s now) =
     (is_focused s, 0, 0, current_focus_session_start s, current_unfocus_session_start s)"
  by (simp add: accounting_def rearm_def)

lemma accounting_halt: "accounting (halt s) = accounting s"
  by (simp add: accounting_def halt_def)

subsection \<open>Open intervals\<close>

lemma intervals_ok_cong: "accounting s' = accounting s \<Longrightarrow> intervals_ok s' = intervals_ok s"
  by (simp add: accounting_def intervals_ok_def)

lemma intervals_ok_init: "intervals_ok (ClientSession_init uid mid sec t)"
  by (simp add: intervals_ok_def ClientSession_init_def)

lemma intervals_ok_rearm: "intervals_ok (rearm s now) = intervals_ok s"
  by (simp add: intervals_ok_def rearm_def)

lemma intervals_ok_leave_focused:
  "intervals_ok s \<Longrightarrow> is_focused s \<Longrightarrow> t \<noteq> 0 \<Longrightarrow> intervals_ok (leave_focused s t)"
  by (cases "current_focus_session_start s")
     (auto simp: intervals_ok_def leave_focused_def truthy_time_def)

lemma intervals_ok_leave_unfocused:
  "intervals_ok s \<Longrightarrow> \<not> is_focused s \<Longrightarrow> t \<noteq> 0 \<Longrightarrow> intervals_ok (leave_unfocused s t)"
  by (cases "current_unfocus_session_start s")
     (auto simp: intervals_ok_def leave_unfocused_def truthy_time_def)

lemma process_frame_session_intervals_ok:
  assumes "well_formed s" "intervals_ok s" "clk_update clk \<noteq> 0"
  shows "intervals_ok (fst (process_frame_session s fr rnd clk))"
  using assms(1)
proof (cases rule: process_frame_session_accounting [where fr = fr and rnd = rnd and clk = clk])
  case same
  then show ?thesis using assms(2) intervals_ok_cong [OF same] by simp
next
  case unfocus
  then show ?thesis
    using intervals_ok_leave_focused [OF assms(2) _ assms(3)] intervals_ok_cong [OF unfocus(2)]
    by simp
next
  case focus
  then show ?thesis
    using intervals_ok_leave_unfocused [OF assms(2) _ assms(3)] intervals_ok_cong [OF focus(2)]
    by simp
qed

lemma step_intervals_ok:
  assumes "\<And>s. m sid = Some s \<Longrightarrow> well_formed s \<and> intervals_ok s"
    and "\<forall>t\<in>set (clock_readings e). 0 < t"
    and "step m e sid = Some s'"
  shows "well_formed s' \<and> intervals_ok s'"
proof
  show "well_formed s'"
    using assms(1,3) by (intro step_well_formed [of m sid e s']) auto
  show "intervals_ok s'"
  proof (cases rule: step_cases [where m = m and e = e and sid = sid])
    case unchanged
    with assms show ?thesis by simp
  next
    case (removed now)
    with assms show ?thesis by simp
  next
    case (started uid mid sec t_init now s)
    then have "intervals_ok s" using assms(1) intervals_ok_init by auto
    then have "intervals_ok (rearm s now)" by (simp add: intervals_ok_rearm)
    with started(3) assms(3) show ?thesis by simp
  next
    case (stopped now s)
    then have "intervals_ok (halt s)"
      using assms(1) intervals_ok_cong [OF accounting_halt] by simp
    with stopped(3) assms(3) show ?thesis by simp
  next
    case (framed fr rnd clk s)
    then have "clk_update clk \<noteq> 0" using assms(2) by auto
    then have "intervals_ok (fst (process_frame_session s fr rnd clk))"
      using framed(2) assms(1) by (intro process_frame_session_intervals_ok) auto
    with framed(3) assms(3) show ?thesis by simp
  qed
qed

text \<open>
  C9. After any sequence of start, frame-processing, stop, status and cleanup calls on the
  empty service, a stored session has at most one of its two open-interval fields set. The
  clock readings are taken to be positive, as \<^verbatim>\<open>time.time()\<close> is: the code tests an
  interval start for truth, and the time \<open>0\<close> would read as "no interval".
\<close>

theorem at_most_one_open_interval:
  assumes "\<forall>e\<in>set evs. \<forall>t\<in>set (clock_readings e). 0 < t"
    and "run Map.empty evs sid = Some s"
  shows "current_focus_session_start s = None \<or> current_unfocus_session_start s = None"
proof -
  have "well_formed s \<and> intervals_ok s"
  proof (rule run_session_invariant [where m = Map.empty and sid = sid and evs = evs])
    show "run Map.empty evs sid = Some s" by (rule assms(2))
  next
    fix s0 :: ClientSession
    assume "Map.empty sid = Some s0"
    then show "well_formed s0 \<and> intervals_ok s0" by simp
  next
    fix m e s'
    assume "e \<in> set evs" and "\<And>s. m sid = Some s \<Longrightarrow> well_formed s \<and> intervals_ok s"
      and "step m e sid = Some s'"
    then show "well_formed s' \<and> intervals_ok s'"
      using assms(1) by (intro step_intervals_ok [of m sid e s']) auto
  qed
  then show ?thesis by (auto simp: intervals_ok_def split: if_splits)
qed

theorem at_most_one_open_interval_witness:
  "run Map.empty focus_then_away ''S1'' \<noteq> None \<and>
   (current_focus_session_start (the (run Map.empty focus_then_away ''S1'')) = None \<or>
    current_unfocus_session_start (the (run Map.empty focus_then_away ''S1'')) = None)"
proof -
  have ex: "run Map.empty focus_then_away ''S1'' \<noteq> None"
    using focus_then_away_accounting by auto
  then have "run Map.empty focus_then_away ''S1'' = Some (the (run Map.empty focus_then_away ''S1''))"
    by simp
  from at_most_one_open_interval [OF focus_then_away_positive this] ex
  show ?thesis by simp
qed


subsection \<open>The history buffer\<close>

lemma next_history_drop:
  assumes "focus_history_size s = 15" "length (focus_history s) \<le> 15"
  shows "next_history s b =
    drop (length (focus_history s @ [b]) - 15) (focus_history s @ [b])"
proof (cases "length (focus_history s) = 15")
  case True
  then have "next_history s b = tl (focus_history s @ [b])"
    using assms(1) by (simp add: next_history_def)
  also have "\<dots> = drop 1 (focus_history s @ [b])"
    by (metis One_nat_def drop0 drop_Suc)
  finally show ?thesis using True by simp
next
  case False
  then have "length (focus_history s) < 15" using assms(2) by simp
  then show ?thesis using assms(1) by (simp add: next_history_def)
qed

lemma update_focus_state_history:
  assumes "bounded_history s"
  shows "focus_history (fst (update_focus_state s b t)) = next_history s b"
  using assms
  by (cases rule: update_focus_state_cases [where b = b and t = t])
     (simp_all add: leave_focused_def leave_unfocused_def)

lemma update_focus_state_size:
  assumes "bounded_history s"
  shows "focus_history_size (fst (update_focus_state s b t)) = focus_history_size s"
  using assms
  by (cases rule: update_focus_state_cases [where b = b and t = t])
     (simp_all add: leave_focused_def leave_unfocused_def)

lemma drop_window:
  fixes h :: "'a list"
  assumes "length h \<le> n"
  shows "drop (length (drop (length (h @ [b]) - n) (h @ [b]) @ ys) - n)
           (drop (length (h @ [b]) - n) (h @ [b]) @ ys) =
         drop (length (h @ b # ys) - n) (h @ b # ys)"
proof (cases "length h = n")
  case True
  show ?thesis
  proof (cases h)
    case Nil
    with True show ?thesis by simp
  next
    case (Cons a list)
    with True have "n = Suc (length list)" by simp
    with Cons show ?thesis by simp
  qed
next
  case False
  then have "length h < n" using assms by simp
  then show ?thesis by simp
qed

lemma feed_history:
  assumes "focus_history_size s = 15" "length (focus_history s) \<le> 15"
  shows "snd (feed s xs) = None \<and>
         focus_history (fst (feed s xs)) =
           drop (length (focus_history s @ map fst xs) - 15) (focus_history s @ map fst xs) \<and>
         length (focus_history (fst (feed s xs))) \<le> 15 \<and>
         focus_history_size (fst (feed s xs)) = 15"
  using assms
proof (induction xs arbitrary: s)
  case Nil
  then show ?case by simp
next
  case (Cons x xs)
  obtain b t where x: "x = (b, t)" by (cases x)
  have pos: "bounded_history s" using Cons.prems by (simp add: bounded_history_def)
  obtain s' where up: "update_focus_state s b t = (s', None)"
    using update_focus_state_no_error [OF pos, of b t]
    by (cases "update_focus_state s b t") simp
  have h': "focus_history s' = drop (length (focus_history s @ [b]) - 15) (focus_history s @ [b])"
    using update_focus_state_history [OF pos, of b t] next_history_drop [OF Cons.prems] up by simp
  have size': "focus_history_size s' = 15"
    using update_focus_state_size [OF pos, of b t] Cons.prems(1) up by simp
  have len': "length (focus_history s') \<le> 15"
    using h' Cons.prems(2) by simp
  have feed: "feed s (x # xs) = feed s' xs"
    using up x by simp
  have "drop (length (focus_history s' @ map fst xs) - 15) (focus_history s' @ map fst xs) =
        drop (length (focus_history s @ map fst (x # xs)) - 15) (focus_history s @ map fst (x # xs))"
    unfolding h' using drop_window [OF Cons.prems(2), of b "map fst xs"] x by simp
  then show ?case
    using Cons.IH [OF size' len'] feed by simp
qed

lemma feed_append:
  "feed s (xs @ ys) =
     (case feed s xs of (s', None) \<Rightarrow> feed s' ys | (s', Some e) \<Rightarrow> (s', Some e))"
  by (induction xs arbitrary: s) (auto split: prod.splits option.splits)

text \<open>
  C10. A session whose history holds at most 15 entries is fed any list of raw focus
  decisions: no call raises, the history afterwards is the last 15 entries of the old
  history followed by the decisions, in their order (the oldest entries are the ones
  dropped), and so it never has more than 15 entries.
\<close>

theorem history_is_last_15:
  assumes "focus_history_size s = 15" "length (focus_history s) \<le> 15"
  shows "snd (feed s xs) = None \<and>
         focus_history (fst (feed s xs)) =
           drop (length (focus_history s @ map fst xs) - 15) (focus_history s @ map fst xs) \<and>
         length (focus_history (fst (feed s xs))) \<le> 15"
  using feed_history [OF assms, of xs] by simp

theorem history_is_last_15_witness:
  "focus_history
     (fst (feed (ClientSession_init (Some ''U1'') (Some ''M1'') None 0)
        (map (\<lambda>i. (even i, real i)) [0..<17]))) =
   drop 2 (map even [0..<17])"
proof -
  let ?s = "ClientSession_init (Some ''U1'') (Some ''M1'') None 0"
  have size: "focus_history_size ?s = 15" by (simp add: ClientSession_init_def)
  have len: "length (focus_history ?s) \<le> 15" by (simp add: ClientSession_init_def)
  show ?thesis
    using history_is_last_15 [OF size len, of "map (\<lambda>i. (even i, real i)) [0..<17]"]
    by (simp add: ClientSession_init_def comp_def)
qed


subsection \<open>The smoothed state\<close>

lemma spec_weight_ends:
  assumes "1 < n"
  shows "spec_weight n 0 = 0.5 \<and> spec_weight n (n - 1) = 1.0"
  using assms by (simp add: spec_weight_def)

lemma spec_weight_step:
  assumes "Suc i < n"
  shows "spec_weight n (Suc i) - spec_weight n i = 0.5 / real (n - 1)"
  using assms by (simp add: spec_weight_def add_divide_distrib distrib_left)

text \<open>
  C2, as the code has it. A session whose history holds at most 15 entries is fed any
  non-empty list of raw focus decisions. No call raises and the stored history is the
  last 15 entries of the old history followed by the decisions. The stored smoothed state
  is the float64 value of \<^verbatim>\<open>np.average\<close> of that history, with the weights of
  \<^verbatim>\<open>np.linspace(0.5, 1.0, n)\<close>, compared strictly with the float 0.6. Whenever the
  exact weighted average of the history (weights rising linearly from 0.5 on the oldest
  entry to 1.0 on the newest) is not exactly 0.6, that is the exact average compared
  strictly with 0.6. Every prefix of a list is a list, so this holds after each update.
\<close>

theorem smoothed_state_off_ties:
  assumes "focus_history_size s = 15" "length (focus_history s) \<le> 15" "xs \<noteq> []"
  shows "snd (feed s xs) = None \<and>
         focus_history (fst (feed s xs)) =
           drop (length (focus_history s @ map fst xs) - 15) (focus_history s @ map fst xs) \<and>
         (\<exists>w. np_average
                (drop (length (focus_history s @ map fst xs) - 15) (focus_history s @ map fst xs))
                (linspace 0.5 1.0
                   (length (drop (length (focus_history s @ map fst xs) - 15)
                              (focus_history s @ map fst xs)))) = Inr w \<and>
              is_focused (fst (feed s xs)) = (fl 0.6 < w)) \<and>
         (spec_weighted_average
            (drop (length (focus_history s @ map fst xs) - 15) (focus_history s @ map fst xs))
          \<noteq> 0.6 \<longrightarrow>
          is_focused (fst (feed s xs)) =
            spec_smoothed
              (drop (length (focus_history s @ map fst xs) - 15) (focus_history s @ map fst xs)))"
proof -
  let ?H = "drop (length (focus_history s @ map fst xs) - 15) (focus_history s @ map fst xs)"
  obtain ys b t where xs: "xs = ys @ [(b, t)]"
    using assms(3) by (cases xs rule: rev_cases) auto
  obtain s1 where s1: "feed s ys = (s1, None)"
    using feed_history [OF assms(1,2), of ys] by (cases "feed s ys") auto
  have bounded: "bounded_history s1"
    using feed_history [OF assms(1,2), of ys] s1 by (simp add: bounded_history_def)
  obtain w where
    w: "np_average (next_history s1 b) (linspace (1 / 2) 1 (length (next_history s1 b))) = Inr w"
    using np_average_defined [OF next_history_bounded [OF bounded]] by blast
  obtain s2 where s2: "update_focus_state s1 b t = (s2, None)"
    using update_focus_state_no_error [OF bounded, of b t]
    by (cases "update_focus_state s1 b t") simp
  have feed: "feed s xs = (s2, None)"
    using s1 s2 by (simp add: xs feed_append)
  have all: "snd (feed s xs) = None" "focus_history (fst (feed s xs)) = ?H"
    using feed_history [OF assms(1,2), of xs] by simp_all
  have "focus_history s2 = next_history s1 b"
    using update_focus_state_history [OF bounded, of b t] s2 by simp
  then have next_h: "next_history s1 b = ?H" using all(2) feed by simp
  have "is_focused s2 = (fl (3 / 5) < w)"
    using update_focus_state_float [OF w, of t] s2 by simp
  then have float: "\<exists>w. np_average ?H (linspace 0.5 1.0 (length ?H)) = Inr w \<and>
      is_focused (fst (feed s xs)) = (fl 0.6 < w)"
    using w [unfolded next_h] feed by simp
  have exact: "spec_weighted_average ?H \<noteq> 0.6 \<longrightarrow>
      is_focused (fst (feed s xs)) = spec_smoothed ?H"
  proof
    assume "spec_weighted_average ?H \<noteq> 0.6"
    then have "spec_weighted_average (next_history s1 b) \<noteq> 3 / 5"
      by (simp add: next_h)
    then have "is_focused s2 = spec_smoothed (next_history s1 b)"
      using update_focus_state_is_focused [OF bounded, of b t] s2 by simp
    then show "is_focused (fst (feed s xs)) = spec_smoothed ?H"
      using next_h feed by simp
  qed
  show ?thesis
    by (rule conjI [OF all(1) conjI [OF all(2) conjI [OF float exact]]])
qed

theorem smoothed_state_off_ties_witness:
  "focus_history (fst (feed (ClientSession_init (Some ''U1'') (Some ''M1'') None 0)
                      [(True, 3), (False, 5)])) = [True, False] \<and>
   is_focused (fst (feed (ClientSession_init (Some ''U1'') (Some ''M1'') None 0)
                      [(True, 3), (False, 5)])) = spec_smoothed [True, False] \<and>
   spec_weighted_average [True, False] = 1 / 3"
proof -
  let ?s = "ClientSession_init (Some ''U1'') (Some ''M1'') None 0"
  have size: "focus_history_size ?s = 15" by (simp add: ClientSession_init_def)
  have len: "length (focus_history ?s) \<le> 15" by (simp add: ClientSession_init_def)
  have ne: "[(True, 3), (False, 5 :: real)] \<noteq> []" by simp
  have avg: "spec_weighted_average [True, False] = 1 / 3"
    by (simp add: spec_weighted_average_def spec_weight_def upt_rec)
  show ?thesis
    using smoothed_state_off_ties [OF size len ne] avg
    by (simp add: ClientSession_init_def)
qed

text \<open>
  C2 as stated fails. Three unfocused decisions and then three focused ones are fed to
  a new session: the exact weighted average of the history is 0.6, which is not greater
  than 0.6, but the float64 average is 0.6000000000000001 and the session is stored as
  focused.
\<close>

theorem tie_is_stored_focused:
  "focus_history (fst (feed (ClientSession_init (Some ''U1'') (Some ''M1'') None 0) tie_inputs)) =
     [False, False, False, True, True, True] \<and>
   is_focused (fst (feed (ClientSession_init (Some ''U1'') (Some ''M1'') None 0) tie_inputs)) \<and>
   spec_weighted_average [False, False, False, True, True, True] = 0.6 \<and>
   \<not> spec_smoothed [False, False, False, True, True, True]"
proof -
  let ?s = "ClientSession_init (Some ''U1'') (Some ''M1'') None 0"
  let ?five = "[(False, 1), (False, 2), (False, 3), (True, 4), (True, 5 :: real)]"
  define s5 where "s5 = fst (feed ?s ?five)"
  have split: "tie_inputs = ?five @ [(True, 6)]" by (simp add: tie_inputs_def)
  have five: "snd (feed ?s ?five) = None" "focus_history s5 = [False, False, False, True, True]"
    "focus_history_size s5 = 15" "\<not> is_focused s5"
    unfolding s5_def by (simp_all add: service_defs upt_rec)
  have feed5: "feed ?s ?five = (s5, None)"
    using five(1) unfolding s5_def by (metis prod.collapse)
  have next_h: "next_history s5 True = [False, False, False, True, True, True]"
    using five(2,3) by (simp add: next_history_def)
  have avg: "np_average (next_history s5 True) (linspace (1 / 2) 1 (length (next_history s5 True))) =
      Inr (1351079888211149 / 2251799813685248)"
    unfolding next_h using average_FFFTTT by (simp add: eval_nat_numeral)
  have "update_focus_state s5 True 6 =
      (leave_unfocused (s5\<lparr>focus_history := next_history s5 True\<rparr>) 6, None)"
    using five(4) by (simp add: update_focus_state_decided [OF avg] fl_values)
  then have "feed ?s tie_inputs =
      (leave_unfocused (s5\<lparr>focus_history := next_history s5 True\<rparr>) 6, None)"
    unfolding split feed_append feed5 by simp
  then have "focus_history (fst (feed ?s tie_inputs)) = [False, False, False, True, True, True]"
    "is_focused (fst (feed ?s tie_inputs))"
    using next_h by (simp_all add: leave_unfocused_def)
  moreover have "spec_weighted_average [False, False, False, True, True, True] = 0.6"
    by (simp add: spec_weighted_average_def spec_weight_def upt_rec)
  ultimately show ?thesis by (simp add: spec_smoothed_def)
qed

subsection \<open>The raw focus decision\<close>




subsection \<open>Stopping and restarting\<close>

lemma focused_run_accounting:
  "map_option accounting (run Map.empty focused_run ''S1'') = Some (True, 0, 0, Some 3, None)"
  by (simp add: focused_run_def service_defs accounting_def upt_rec)

text \<open>
  C3, as the code has it. Stopping an existing session sets its state to
  \<^verbatim>\<open>"stopped"\<close> and clears \<^verbatim>\<open>is_tracking\<close> and \<^verbatim>\<open>countdown_active\<close>. It
  closes no interval: both accumulators and both open-interval fields stay as they are.
  The snapshot returned counts an open interval up to the time of the call.
\<close>

theorem stop_session_snapshot:
  assumes "m sid = Some s"
  shows "fst (stop_session m sid now) sid \<noteq> None \<and>
         snd (stop_session m sid now) \<noteq> None \<and>
         (let s' = the (fst (stop_session m sid now) sid);
              snapshot = the (snd (stop_session m sid now))
          in tracking_state s' = ''stopped'' \<and> \<not> is_tracking s' \<and> \<not> countdown_active s' \<and>
             accumulated_focused_time s' = accumulated_focused_time s \<and>
             accumulated_unfocused_time s' = accumulated_unfocused_time s \<and>
             current_focus_session_start s' = current_focus_session_start s \<and>
             current_unfocus_session_start s' = current_unfocus_session_start s \<and>
             focused_time snapshot = py_round1 (fst (effective_times s now)) \<and>
             unfocused_time snapshot = py_round1 (snd (effective_times s now)) \<and>
             total_time snapshot =
               py_round1 (fst (effective_times s now) + snd (effective_times s now)))"
  using assms
  by (simp add: stop_session_def get_session_metrics_def effective_times_def Let_def)

theorem stop_session_snapshot_witness:
  "tracking_state (the (fst (stop_session (run Map.empty focused_run) ''S1'' 10) ''S1'')) =
     ''stopped'' \<and>
   accumulated_focused_time (the (fst (stop_session (run Map.empty focused_run) ''S1'' 10) ''S1'')) =
     0 \<and>
   current_focus_session_start (the (fst (stop_session (run Map.empty focused_run) ''S1'' 10) ''S1'')) =
     Some 3 \<and>
   focused_time (the (snd (stop_session (run Map.empty focused_run) ''S1'' 10))) = 7"
proof -
  let ?s = "the (run Map.empty focused_run ''S1'')"
  have ex: "run Map.empty focused_run ''S1'' = Some ?s"
    using focused_run_accounting by auto
  have acc: "accounting ?s = (True, 0, 0, Some 3, None)"
    using focused_run_accounting ex by (metis option.sel option.simps(9))
  then have "py_round1 (fst (effective_times ?s 10)) = 7"
    by (simp add: accounting_def effective_times_def truthy_time_def py_round1_def)
  then show ?thesis
    using stop_session_snapshot [of "run Map.empty focused_run" "''S1''" ?s 10, OF ex] acc
    by (simp add: accounting_def Let_def)
qed

text \<open>
  C3 as stated fails: after the stop at time 10 the focus interval opened at time 3 is
  still open and nothing has been added to the accumulator.
\<close>

theorem stop_leaves_interval_open:
  "tracking_state (the (run Map.empty (focused_run @ [StopSession ''S1'' 10]) ''S1'')) = ''stopped'' \<and>
   current_focus_session_start (the (run Map.empty (focused_run @ [StopSession ''S1'' 10]) ''S1''))
     = Some 3 \<and>
   accumulated_focused_time (the (run Map.empty (focused_run @ [StopSession ''S1'' 10]) ''S1''))
     = 0"
  by (simp add: focused_run_def service_defs upt_rec)


text \<open>
  C6, as the code has it. \<^verbatim>\<open>stop_session\<close> answers "not found" exactly when no
  session is stored under the id, and then changes nothing. A stopped session stays
  stored, so a second \<^verbatim>\<open>stop_session\<close> on its id returns a snapshot again.
\<close>

theorem stop_session_not_found:
  "(snd (stop_session m sid now) = None) = (m sid = None) \<and>
   (snd (stop_session (fst (stop_session m sid now)) sid later) = None) = (m sid = None) \<and>
   (if m sid = None then fst (stop_session m sid now) = m
    else lifecycle (fst (stop_session m sid now)) sid = Some ''stopped'')"
  by (cases "m sid") (simp_all add: stop_session_def lifecycle_def Let_def)

lemma started_lifecycle: "lifecycle (run Map.empty [start_S1 1]) ''S1'' = Some ''countdown''"
  by (simp add: service_defs lifecycle_def)

theorem stop_session_not_found_witness:
  "snd (stop_session (run Map.empty [start_S1 1]) ''S1'' 5) \<noteq> None \<and>
   snd (stop_session (run Map.empty [start_S1 1]) ''S2'' 5) = None \<and>
   lifecycle (fst (stop_session (run Map.empty [start_S1 1]) ''S1'' 5)) ''S1'' = Some ''stopped''"
proof -
  have "run Map.empty [start_S1 1] ''S1'' \<noteq> None"
    using started_lifecycle by (auto simp: lifecycle_def)
  moreover have "run Map.empty [start_S1 1] ''S2'' = None"
    by (simp add: service_defs)
  ultimately show ?thesis
    using stop_session_not_found [of "run Map.empty [start_S1 1]" "''S1''" 5 6]
      stop_session_not_found [of "run Map.empty [start_S1 1]" "''S2''" 5 6]
    by simp
qed

text \<open>
  C6 as stated fails: the second \<^verbatim>\<open>stop_session\<close> on the same id returns a snapshot,
  not "not found".
\<close>

theorem second_stop_returns_snapshot:
  "snd (stop_session (fst (stop_session (run Map.empty [start_S1 1]) ''S1'' 5)) ''S1'' 6) \<noteq> None"
  by (simp add: service_defs)

text \<open>
  C7. \<^verbatim>\<open>start_session\<close> on the focused session of the example, at time 10: the state
  is \<^verbatim>\<open>"countdown"\<close> with the countdown started at 10, the accumulators are 0 and the
  history is empty, but the focus interval opened at time 3 is still open, the session is
  still focused and still tracking, and the metrics at once report 7 focused seconds.
\<close>

theorem restart_keeps_open_interval:
  "tracking_state (the (run Map.empty (focused_run @ [start_S1 10]) ''S1'')) = ''countdown'' \<and>
   countdown_start_time (the (run Map.empty (focused_run @ [start_S1 10]) ''S1'')) = Some 10 \<and>
   accumulated_focused_time (the (run Map.empty (focused_run @ [start_S1 10]) ''S1'')) = 0 \<and>
   accumulated_unfocused_time (the (run Map.empty (focused_run @ [start_S1 10]) ''S1'')) = 0 \<and>
   focus_history (the (run Map.empty (focused_run @ [start_S1 10]) ''S1'')) = [] \<and>
   current_focus_session_start (the (run Map.empty (focused_run @ [start_S1 10]) ''S1'')) = Some 3 \<and>
   is_focused (the (run Map.empty (focused_run @ [start_S1 10]) ''S1'')) \<and>
   is_tracking (the (run Map.empty (focused_run @ [start_S1 10]) ''S1'')) \<and>
   focused_time (get_session_metrics
     (the (run Map.empty (focused_run @ [start_S1 10]) ''S1'')) 10) = 7"
  by (simp add: focused_run_def service_defs upt_rec)

subsection \<open>The lifecycle\<close>






subsection \<open>The accumulators\<close>

lemma starts_among_cong:
  "accounting s' = accounting s \<Longrightarrow> starts_among R s' = starts_among R s"
  by (simp add: accounting_def starts_among_def)

lemma starts_among_mono: "starts_among R s \<Longrightarrow> R \<subseteq> R' \<Longrightarrow> starts_among R' s"
  by (auto simp: starts_among_def split: option.splits)

lemma starts_among_init: "starts_among R (ClientSession_init uid mid sec t)"
  by (simp add: starts_among_def ClientSession_init_def)

lemma starts_among_rearm: "starts_among R (rearm s now) = starts_among R s"
  by (simp add: starts_among_def rearm_def)

lemma starts_among_halt: "starts_among R (halt s) = starts_among R s"
  by (simp add: starts_among_def halt_def)

lemma starts_among_leave_focused:
  "starts_among R s \<Longrightarrow> t \<in> R \<Longrightarrow> starts_among R (leave_focused s t)"
  by (auto simp: starts_among_def leave_focused_def split: option.splits)

lemma starts_among_leave_unfocused:
  "starts_among R s \<Longrightarrow> t \<in> R \<Longrightarrow> starts_among R (leave_unfocused s t)"
  by (auto simp: starts_among_def leave_unfocused_def split: option.splits)

lemma process_frame_session_starts_among:
  assumes "well_formed s" "starts_among R s" "clk_update clk \<in> R"
  shows "starts_among R (fst (process_frame_session s fr rnd clk))"
  using assms(1)
proof (cases rule: process_frame_session_accounting [where fr = fr and rnd = rnd and clk = clk])
  case same
  then show ?thesis using assms(2) starts_among_cong [OF same] by simp
next
  case unfocus
  then show ?thesis
    using starts_among_leave_focused [OF assms(2,3)] starts_among_cong [OF unfocus(2)] by simp
next
  case focus
  then show ?thesis
    using starts_among_leave_unfocused [OF assms(2,3)] starts_among_cong [OF focus(2)] by simp
qed

lemma reachable_starts_among:
  "run Map.empty evs sid = Some s \<Longrightarrow> starts_among (set (concat (map clock_readings evs))) s"
proof (induction evs arbitrary: s rule: rev_induct)
  case Nil
  then show ?case by (simp add: run_def)
next
  case (snoc e evs)
  let ?m = "run Map.empty evs"
  let ?R = "set (concat (map clock_readings evs))"
  let ?R' = "set (concat (map clock_readings (evs @ [e])))"
  have sub: "?R \<subseteq> ?R'" by auto
  have step: "step ?m e sid = Some s" using snoc.prems by (simp add: run_snoc)
  show ?case
  proof (cases rule: step_cases [where m = ?m and e = e and sid = sid])
    case unchanged
    then have "starts_among ?R s" using step snoc.IH by simp
    then show ?thesis using sub by (rule starts_among_mono)
  next
    case (removed now)
    with step show ?thesis by simp
  next
    case (started uid mid sec t_init now s0)
    then have "starts_among ?R s0" using snoc.IH starts_among_init by auto
    then have "starts_among ?R' s0" using sub by (rule starts_among_mono)
    then show ?thesis using started(3) step by (simp add: starts_among_rearm)
  next
    case (stopped now s0)
    then have "starts_among ?R s0" using snoc.IH by simp
    then have "starts_among ?R' s0" using sub by (rule starts_among_mono)
    then show ?thesis using stopped(3) step by (simp add: starts_among_halt)
  next
    case (framed fr rnd clk s0)
    then have "starts_among ?R s0" using snoc.IH by simp
    then have "starts_among ?R' s0" using sub by (rule starts_among_mono)
    moreover have "well_formed s0" using framed(2) by (rule reachable_well_formed)
    moreover have "clk_update clk \<in> ?R'" using framed(1) by simp
    ultimately have "starts_among ?R' (fst (process_frame_session s0 fr rnd clk))"
      by (intro process_frame_session_starts_among)
    then show ?thesis using framed(3) step by simp
  qed
qed

lemma leave_focused_accumulators:
  assumes "\<And>x. current_focus_session_start s = Some x \<Longrightarrow> x \<le> t"
  shows "accumulated_focused_time s \<le> accumulated_focused_time (leave_focused s t) \<and>
         accumulated_unfocused_time (leave_focused s t) = accumulated_unfocused_time s"
  using assms
  by (cases "current_focus_session_start s") (simp_all add: leave_focused_def truthy_time_def)

lemma leave_unfocused_accumulators:
  assumes "\<And>x. current_unfocus_session_start s = Some x \<Longrightarrow> x \<le> t"
  shows "accumulated_unfocused_time s \<le> accumulated_unfocused_time (leave_unfocused s t) \<and>
         accumulated_focused_time (leave_unfocused s t) = accumulated_focused_time s"
  using assms
  by (cases "current_unfocus_session_start s") (simp_all add: leave_unfocused_def truthy_time_def)

lemma starts_step:
  assumes "starts sid e" "m sid = Some s"
  shows "\<exists>now. step m e sid = Some (rearm s now)"
  using assms
  by (cases e) (auto simp: start_session_def get_or_create_session_def rearm_def)

text \<open>
  C5, as the code has it. In a run of the service whose clock readings never go back, a
  call that is not a \<^verbatim>\<open>start_session\<close> for the session (a processed frame, a stop, a
  status query, a cleanup that keeps the session, any call for another session) lowers
  neither accumulator; a \<^verbatim>\<open>start_session\<close> for the session sets both to 0.
\<close>

theorem accumulators_monotone_except_start:
  assumes "sorted (concat (map clock_readings (evs @ [e])))"
    and "run Map.empty evs sid = Some s"
    and "step (run Map.empty evs) e sid = Some s'"
  shows "if starts sid e
         then accumulated_focused_time s' = 0 \<and> accumulated_unfocused_time s' = 0
         else accumulated_focused_time s \<le> accumulated_focused_time s' \<and>
              accumulated_unfocused_time s \<le> accumulated_unfocused_time s'"
proof (cases "starts sid e")
  case True
  then obtain now where "step (run Map.empty evs) e sid = Some (rearm s now)"
    using starts_step [of sid e "run Map.empty evs" s, OF True assms(2)] by blast
  then have "s' = rearm s now" using assms(3) by simp
  then show ?thesis using True by (simp add: rearm_def)
next
  case False
  let ?m = "run Map.empty evs"
  have wf: "well_formed s" using assms(2) by (rule reachable_well_formed)
  have among: "starts_among (set (concat (map clock_readings evs))) s"
    using assms(2) by (rule reachable_starts_among)
  have before: "x \<le> y"
    if "x \<in> set (concat (map clock_readings evs))" "y \<in> set (clock_readings e)" for x y
    using assms(1) that by (auto simp: sorted_append)
  have "accumulated_focused_time s \<le> accumulated_focused_time s' \<and>
        accumulated_unfocused_time s \<le> accumulated_unfocused_time s'"
  proof (cases rule: step_cases [where m = ?m and e = e and sid = sid])
    case unchanged
    then show ?thesis using assms(2,3) by simp
  next
    case (removed now)
    then show ?thesis using assms(3) by simp
  next
    case (started uid mid sec t_init now s0)
    then show ?thesis using False by simp
  next
    case (stopped now s0)
    then have "s' = halt s" using assms(2,3) by simp
    then show ?thesis by (simp add: halt_def)
  next
    case (framed fr rnd clk s0)
    then have s0: "s0 = s" and s': "s' = fst (process_frame_session s fr rnd clk)"
      using assms(2,3) by simp_all
    have upd: "clk_update clk \<in> set (clock_readings e)" using framed(1) by simp
    have f: "x \<le> clk_update clk" if "current_focus_session_start s = Some x" for x
      using among that before [OF _ upd] by (simp add: starts_among_def)
    have u: "x \<le> clk_update clk" if "current_unfocus_session_start s = Some x" for x
      using among that before [OF _ upd] by (simp add: starts_among_def)
    from wf show ?thesis
    proof (cases rule: process_frame_session_accounting [where fr = fr and rnd = rnd and clk = clk])
      case same
      then show ?thesis using s' by (simp add: accounting_def)
    next
      case unfocus
      then show ?thesis
        using s' leave_focused_accumulators [of s "clk_update clk"] f
        by (simp add: accounting_def)
    next
      case focus
      then show ?thesis
        using s' leave_unfocused_accumulators [of s "clk_update clk"] u
        by (simp add: accounting_def)
    qed
  qed
  then show ?thesis using False by simp
qed


theorem accumulators_monotone_except_start_witness:
  "accumulated_focused_time (the (run Map.empty focused_run ''S1'')) \<le>
     accumulated_focused_time
       (the (step (run Map.empty focused_run)
          (ProcessFrame ''S1'' (Some away) 0.5 (clock_at 5)) ''S1'')) \<and>
   accumulated_focused_time
     (the (step (run Map.empty focused_run)
        (ProcessFrame ''S1'' (Some away) 0.5 (clock_at 5)) ''S1'')) = 2"
proof -
  let ?e = "ProcessFrame ''S1'' (Some away) 0.5 (clock_at 5)"
  let ?s = "the (run Map.empty focused_run ''S1'')"
  let ?s' = "the (step (run Map.empty focused_run) ?e ''S1'')"
  have sorted: "sorted (concat (map clock_readings (focused_run @ [?e])))"
    by (simp add: focused_run_def start_S1_def clock_at_def)
  have before: "run Map.empty focused_run ''S1'' = Some ?s"
    using focused_run_accounting by auto
  have "step (run Map.empty focused_run) ?e = run Map.empty focus_then_away"
    by (simp add: run_def focused_run_def focus_then_away_def)
  then have after: "step (run Map.empty focused_run) ?e ''S1'' = Some ?s'"
    and acc: "accounting ?s' = (False, 2, 0, None, Some 5)"
    using focus_then_away_accounting by auto
  have "\<not> starts ''S1'' ?e" by simp
  then show ?thesis
    using accumulators_monotone_except_start [OF sorted before after] acc
    by (simp add: accounting_def)
qed

text \<open>
  C5 as stated fails: \<^verbatim>\<open>start_session\<close> is one of the operations, and on the session
  that has accumulated 2 focused seconds it sets the accumulator back to 0.
\<close>

theorem restart_lowers_accumulator:
  "accumulated_focused_time (the (run Map.empty focus_then_away ''S1'')) = 2 \<and>
   accumulated_focused_time (the (run Map.empty (focus_then_away @ [start_S1 6]) ''S1'')) = 0"
  by (simp add: focus_then_away_def service_defs upt_rec)

subsection \<open>Conservation of time\<close>

lemma conserved_cong:
  "accounting s' = accounting s \<Longrightarrow> conserved origin s' = conserved origin s"
  by (cases origin) (simp_all add: accounting_def conserved_def)

lemma conserved_None_unfocused: "conserved None s \<Longrightarrow> \<not> is_focused s"
  by (simp add: conserved_def accounting_def)

lemma conserved_halt: "conserved origin (halt s) = conserved origin s"
  by (rule conserved_cong) (rule accounting_halt)

lemma conserved_first_focus:
  "conserved None s \<Longrightarrow> t \<noteq> 0 \<Longrightarrow> conserved (Some t) (leave_unfocused s t)"
  by (simp add: conserved_def accounting_def leave_unfocused_def truthy_time_def)

lemma conserved_leave_focused:
  "conserved (Some t0) s \<Longrightarrow> is_focused s \<Longrightarrow> t \<noteq> 0 \<Longrightarrow> conserved (Some t0) (leave_focused s t)"
  by (cases "current_focus_session_start s")
     (simp_all add: conserved_def leave_focused_def truthy_time_def)

lemma conserved_leave_unfocused:
  "conserved (Some t0) s \<Longrightarrow> \<not> is_focused s \<Longrightarrow> t \<noteq> 0 \<Longrightarrow>
   conserved (Some t0) (leave_unfocused s t)"
  by (cases "current_unfocus_session_start s")
     (simp_all add: conserved_def leave_unfocused_def truthy_time_def)

lemma conserved_total:
  assumes "conserved origin s"
  shows "fst (effective_times s now) + snd (effective_times s now) =
         (case origin of None \<Rightarrow> 0 | Some t0 \<Rightarrow> now - t0)"
proof (cases origin)
  case None
  with assms show ?thesis
    by (simp add: conserved_def accounting_def effective_times_def truthy_time_def)
next
  case (Some t0)
  with assms show ?thesis
    by (cases "is_focused s")
       (auto simp: conserved_def effective_times_def truthy_time_def Let_def
             split: option.splits)
qed


lemma not_started_absent:
  assumes "m sid = None" "\<not> starts sid e"
  shows "step m e sid = None"
proof (cases rule: step_cases [where m = m and e = e and sid = sid])
  case unchanged
  with assms show ?thesis by simp
next
  case (removed now)
  then show ?thesis by simp
next
  case (started uid mid sec t_init now s)
  with assms show ?thesis by simp
next
  case (stopped now s)
  with assms show ?thesis by simp
next
  case (framed fr rnd clk s)
  with assms show ?thesis by simp
qed

lemma absent_stays_absent:
  assumes "m sid = None" "\<forall>e\<in>set evs. \<not> starts sid e"
  shows "run m evs sid = None"
  using assms
proof (induction evs arbitrary: m)
  case Nil
  then show ?case by (simp add: run_def)
next
  case (Cons e es)
  then have "step m e sid = None" by (intro not_started_absent) simp_all
  then show ?case using Cons by (simp add: run_Cons)
qed

lemma step_conserved_Some:
  assumes "m sid = Some s" "well_formed s" "conserved (Some t0) s"
    and "\<not> starts sid e" "\<forall>t\<in>set (clock_readings e). 0 < t"
    and "step m e sid = Some s'"
  shows "well_formed s' \<and> conserved (Some t0) s'"
proof
  show "well_formed s'"
    using assms(1,2,6) by (intro step_well_formed [of m sid e s']) auto
  show "conserved (Some t0) s'"
  proof (cases rule: step_cases [where m = m and e = e and sid = sid])
    case unchanged
    with assms show ?thesis by simp
  next
    case (removed now)
    with assms show ?thesis by simp
  next
    case (started uid mid sec t_init now s0)
    with assms(4) show ?thesis by simp
  next
    case (stopped now s0)
    then have "s' = halt s" using assms(1,6) by simp
    then show ?thesis using assms(3) by (simp add: conserved_halt)
  next
    case (framed fr rnd clk s0)
    then have s': "s' = fst (process_frame_session s fr rnd clk)"
      using assms(1,6) by simp
    have nz: "clk_update clk \<noteq> 0" using framed(1) assms(5) by auto
    from assms(2) show ?thesis
    proof (cases rule: process_frame_session_accounting [where fr = fr and rnd = rnd and clk = clk])
      case same
      then show ?thesis using s' assms(3) conserved_cong [OF same] by simp
    next
      case unfocus
      then show ?thesis
        using s' conserved_leave_focused [OF assms(3) _ nz] conserved_cong [OF unfocus(2)]
        by simp
    next
      case focus
      then show ?thesis
        using s' conserved_leave_unfocused [OF assms(3) _ nz] conserved_cong [OF focus(2)]
        by simp
    qed
  qed
qed

lemma step_conserved_None:
  assumes "m sid = Some s" "well_formed s" "conserved None s"
    and "\<not> starts sid e" "\<forall>t\<in>set (clock_readings e). 0 < t"
    and "step m e sid = Some s'"
  shows "well_formed s' \<and>
         (if is_focused s' then \<exists>t. update_clock e = Some t \<and> conserved (Some t) s'
          else conserved None s')"
proof
  have unf: "\<not> is_focused s" using assms(3) by (rule conserved_None_unfocused)
  show "well_formed s'"
    using assms(1,2,6) by (intro step_well_formed [of m sid e s']) auto
  show "if is_focused s' then \<exists>t. update_clock e = Some t \<and> conserved (Some t) s'
        else conserved None s'"
  proof (cases rule: step_cases [where m = m and e = e and sid = sid])
    case unchanged
    with assms unf show ?thesis by simp
  next
    case (removed now)
    with assms show ?thesis by simp
  next
    case (started uid mid sec t_init now s0)
    with assms(4) show ?thesis by simp
  next
    case (stopped now s0)
    then have "s' = halt s" using assms(1,6) by simp
    then show ?thesis using assms(3) unf by (simp add: conserved_halt) (simp add: halt_def)
  next
    case (framed fr rnd clk s0)
    then have s': "s' = fst (process_frame_session s fr rnd clk)"
      using assms(1,6) by simp
    have nz: "clk_update clk \<noteq> 0" using framed(1) assms(5) by auto
    have clock: "update_clock e = Some (clk_update clk)" using framed(1) by simp
    from assms(2) show ?thesis
    proof (cases rule: process_frame_session_accounting [where fr = fr and rnd = rnd and clk = clk])
      case same
      then have "is_focused s' = is_focused s" using s' by (simp add: accounting_def)
      then show ?thesis using s' assms(3) unf conserved_cong [OF same] by simp
    next
      case unfocus
      with unf show ?thesis by simp
    next
      case focus
      then have "is_focused s'" using s' by (simp add: accounting_def leave_unfocused_def)
      moreover have "conserved (Some (clk_update clk)) s'"
        using s' conserved_first_focus [OF assms(3) nz] conserved_cong [OF focus(2)] by simp
      ultimately show ?thesis using clock by simp
    qed
  qed
qed

lemma run_conserved_Some:
  assumes "m sid = Some s" "well_formed s" "conserved (Some t0) s"
    and "\<forall>e\<in>set evs. \<not> starts sid e"
    and "\<forall>e\<in>set evs. \<forall>t\<in>set (clock_readings e). 0 < t"
    and "run m evs sid = Some s'"
  shows "conserved (Some t0) s'"
  using assms
proof (induction evs arbitrary: m s)
  case Nil
  then show ?case by (simp add: run_def)
next
  case (Cons e es)
  have run: "run (step m e) es sid = Some s'" using Cons.prems(6) by (simp add: run_Cons)
  show ?case
  proof (cases "step m e sid")
    case None
    then have "run (step m e) es sid = None"
      using Cons.prems(4) by (intro absent_stays_absent) simp_all
    with run show ?thesis by simp
  next
    case (Some s1)
    have "well_formed s1 \<and> conserved (Some t0) s1"
      using Cons.prems(1,2,3) _ _ Some
      by (rule step_conserved_Some) (use Cons.prems(4,5) in simp_all)
    then show ?thesis
      using Cons.IH [OF Some _ _ _ _ run] Cons.prems(4,5) by simp
  qed
qed

lemma run_conserved_None:
  assumes "m sid = Some s" "well_formed s" "conserved None s"
    and "\<forall>e\<in>set evs. \<not> starts sid e"
    and "\<forall>e\<in>set evs. \<forall>t\<in>set (clock_readings e). 0 < t"
    and "run m evs sid = Some s'"
  shows "conserved (became_focused_at m sid evs) s'"
  using assms
proof (induction evs arbitrary: m s)
  case Nil
  then show ?case by (simp add: run_def)
next
  case (Cons e es)
  have run: "run (step m e) es sid = Some s'" using Cons.prems(6) by (simp add: run_Cons)
  show ?case
  proof (cases "step m e sid")
    case None
    then have "run (step m e) es sid = None"
      using Cons.prems(4) by (intro absent_stays_absent) simp_all
    with run show ?thesis by simp
  next
    case (Some s1)
    have s1: "well_formed s1 \<and>
        (if is_focused s1 then \<exists>t. update_clock e = Some t \<and> conserved (Some t) s1
         else conserved None s1)"
      using Cons.prems(1,2,3) _ _ Some
      by (rule step_conserved_None) (use Cons.prems(4,5) in simp_all)
    show ?thesis
    proof (cases "is_focused s1")
      case True
      then obtain t where t: "update_clock e = Some t" "conserved (Some t) s1"
        using s1 by auto
      have "conserved (Some t) s'"
        using Some _ t(2) _ _ run
        by (rule run_conserved_Some) (use s1 Cons.prems(4,5) in simp_all)
      then show ?thesis using Some True t(1) by simp
    next
      case False
      then have "conserved (became_focused_at (step m e) sid es) s'"
        using Cons.IH [OF Some _ _ _ _ run] s1 Cons.prems(4,5) by simp
      then show ?thesis using Some False by simp
    qed
  qed
qed

text \<open>
  C1, as the code has it. A session is created by \<^verbatim>\<open>start_session\<close> and then lives
  through any calls but a second \<^verbatim>\<open>start_session\<close> for it, with positive clock
  readings. At any time \<open>now\<close> the effective focused and unfocused seconds of the metrics
  query add up to the time elapsed since the frame at which the smoothed state first
  became focused, and to 0 as long as it never has: the time a session spends tracking
  before its first focused state is counted nowhere.
\<close>

theorem conservation_since_first_focus:
  assumes "m sid = None"
    and "start_session m sid uid mid sec t_init t0 = (m0, True)"
    and "\<forall>e\<in>set evs. \<not> starts sid e"
    and "\<forall>e\<in>set evs. \<forall>t\<in>set (clock_readings e). 0 < t"
    and "run m0 evs sid = Some s"
  shows "fst (effective_times s now) + snd (effective_times s now) =
         (case became_focused_at m0 sid evs of None \<Rightarrow> 0 | Some t1 \<Rightarrow> now - t1)"
proof -
  let ?s0 = "rearm (ClientSession_init uid mid sec t_init) t0"
  have "truthy_str uid \<and> truthy_str mid"
    using assms(1,2) by (auto simp: start_session_def get_or_create_session_def split: if_splits)
  then have m0: "m0 sid = Some ?s0"
    using assms(1,2)
    by (auto simp: start_session_def get_or_create_session_def rearm_def Let_def)
  have wf: "well_formed ?s0"
    by (intro well_formed_rearm well_formed_init)
  have c0: "conserved None ?s0"
    by (simp add: conserved_def accounting_rearm ClientSession_init_def)
  have "conserved (became_focused_at m0 sid evs) s"
    using m0 wf c0 assms(3,4,5) by (rule run_conserved_None)
  then show ?thesis by (rule conserved_total)
qed


theorem conservation_since_first_focus_witness:
  "became_focused_at (fst (start_session Map.empty ''S1'' (Some ''U1'') (Some ''M1'') None 1 1))
     ''S1'' (tl focus_then_away) = Some 3 \<and>
   fst (effective_times (the (run Map.empty focus_then_away ''S1'')) 10) +
   snd (effective_times (the (run Map.empty focus_then_away ''S1'')) 10) = 10 - 3"
proof -
  let ?m0 = "fst (start_session Map.empty ''S1'' (Some ''U1'') (Some ''M1'') None 1 1)"
  let ?s = "the (run Map.empty focus_then_away ''S1'')"
  have absent: "(Map.empty :: sessions) ''S1'' = None" by simp
  have start: "start_session Map.empty ''S1'' (Some ''U1'') (Some ''M1'') None 1 1 = (?m0, True)"
    by (simp add: start_session_def get_or_create_session_def truthy_str_def Let_def)
  have no_start: "\<forall>e\<in>set (tl focus_then_away). \<not> starts ''S1'' e"
    by (simp add: focus_then_away_def)
  have positive: "\<forall>e\<in>set (tl focus_then_away). \<forall>t\<in>set (clock_readings e). 0 < t"
    by (simp add: focus_then_away_def clock_at_def)
  have "run ?m0 (tl focus_then_away) = run Map.empty focus_then_away"
    by (simp add: run_def focus_then_away_def start_S1_def)
  then have run: "run ?m0 (tl focus_then_away) ''S1'' = Some ?s"
    using focus_then_away_accounting by auto
  have origin: "became_focused_at ?m0 ''S1'' (tl focus_then_away) = Some 3"
    by (simp add: focus_then_away_def service_defs upt_rec)
  show ?thesis
    using conservation_since_first_focus [OF absent start no_start positive run, of 10] origin
    by simp
qed

text \<open>
  C1 as stated fails: the session enters \<^verbatim>\<open>"tracking"\<close> at time 3 on a frame that is
  not focused; at time 10, seven seconds later, the effective focused and unfocused
  seconds still add up to 0.
\<close>

theorem time_before_first_focus_uncounted:
  "tracking_state (the (run Map.empty tracking_unfocused ''S1'')) = ''tracking'' \<and>
   session_start_time (the (run Map.empty tracking_unfocused ''S1'')) = Some 3 \<and>
   fst (effective_times (the (run Map.empty tracking_unfocused ''S1'')) 10) +
   snd (effective_times (the (run Map.empty tracking_unfocused ''S1'')) 10) = 0"
  by (simp add: tracking_unfocused_def service_defs upt_rec)

end
